theory Spec2Isabelle
  imports Complex_Main "HOL-Library.AList" "HOL-Library.Char_ord" "HOL-Library.Log_Nat"
    "HOL-Library.Sublist"
begin

text \<open>
  An embedding of the parts of the expense tracker that decide something: the query and
  aggregation functions over expense records, the state store with its subscriptions,
  the hash router with its hooks, and the snapshot that \<open>getState\<close> takes of the
  state. The definitions come first, each after the function of the source it renders;
  the properties follow, per part.
\<close>

section \<open>Query and aggregation engine (utils.js, app.js)\<close>

text \<open>
  The amount of an expense record is modelled as a rational: in the totals per category
  and in the sort keys, sums and comparisons are the mathematical ones. The numbers of
  \<open>calculateStats\<close> are IEEE 754 doubles, with their rounding, \<open>NaN\<close>, the infinities and
  the two zeros. A date is kept as the millisecond timestamp that
  \<^verbatim>\<open>new Date(exp.date).getTime()\<close> yields.
\<close>

record expense =
  ident :: string
  amount :: rat
  category :: string
  description :: string
  date :: int

subsection \<open>calculateStats\<close>

text \<open>
  The elements of \<^verbatim>\<open>numbers\<close> are Number values: IEEE 754 doubles. A finite double
  other than \<open>-0\<close> is kept as the rational it denotes, and \<open>Fin 0\<close> is \<open>+0\<close>.
\<close>

datatype number = Fin rat | NegZero | PosInf | NegInf | NaN

text \<open>
  The result of an arithmetic operation is the exact result rounded to the nearest double,
  ties to the even significand. \<open>pow2 e\<close> is \<open>2 ^ e\<close>, and \<open>ilog2 x\<close> is the exponent of
  the binade of a positive \<open>x\<close>, found from the bit lengths of its numerator and
  denominator. A double is an integer multiple of \<open>2 ^ e\<close> with a significand of at most 53
  bits, where \<open>e\<close> is at least \<open>-1074\<close> (the subnormal numbers); a rounded magnitude of
  \<open>2 ^ 1024\<close> or more is an infinity, and a non-zero value that rounds to zero keeps
  its sign.
\<close>

definition pow2 :: "int \<Rightarrow> rat" where
  "pow2 e = (if 0 \<le> e then 2 ^ nat e else 1 / 2 ^ nat (- e))"

definition ilog2 :: "rat \<Rightarrow> int" where
  "ilog2 x =
     (case quotient_of x of
        (p, q) \<Rightarrow> (let d = bitlen p - bitlen q in if pow2 d \<le> x then d else d - 1))"

definition round_half_even :: "rat \<Rightarrow> int" where
  "round_half_even x =
     (let f = \<lfloor>x\<rfloor>; r = x - of_int f
      in if r < 1 / 2 then f else if 1 / 2 < r then f + 1 else if even f then f else f + 1)"

definition to_double :: "rat \<Rightarrow> number" where
  "to_double x =
     (if x = 0 then Fin 0
      else (let e = max (- 1074) (ilog2 \<bar>x\<bar> - 52);
                m = round_half_even (\<bar>x\<bar> / pow2 e)
            in if m = 0 then (if x < 0 then NegZero else Fin 0)
               else if 2 ^ 1024 \<le> of_int m * pow2 e then (if x < 0 then NegInf else PosInf)
               else Fin (sgn x * (of_int m * pow2 e))))"

text \<open>
  \<^verbatim>\<open>a + b\<close> on two Numbers: \<open>NaN\<close> is absorbing, the infinities of opposite sign add
  to \<open>NaN\<close>, \<open>-0 + -0\<close> is \<open>-0\<close>, and an exact sum of zero is \<open>+0\<close>.
\<close>

fun plus_num :: "number \<Rightarrow> number \<Rightarrow> number" where
  "plus_num NaN b = NaN"
| "plus_num a NaN = NaN"
| "plus_num PosInf NegInf = NaN"
| "plus_num NegInf PosInf = NaN"
| "plus_num PosInf b = PosInf"
| "plus_num a PosInf = PosInf"
| "plus_num NegInf b = NegInf"
| "plus_num a NegInf = NegInf"
| "plus_num NegZero b = b"
| "plus_num a NegZero = a"
| "plus_num (Fin a) (Fin b) = to_double (a + b)"

text \<open>
  \<^verbatim>\<open>sum / numbers.length\<close>: the divisor is the length of a non-empty array, a positive
  integer below \<open>2 ^ 32\<close>.
\<close>

fun div_length :: "number \<Rightarrow> nat \<Rightarrow> number" where
  "div_length NaN n = NaN"
| "div_length PosInf n = PosInf"
| "div_length NegInf n = NegInf"
| "div_length NegZero n = NegZero"
| "div_length (Fin a) n = to_double (a / of_nat n)"

text \<open>
  The comparison \<^verbatim>\<open><\<close> on Numbers: false when an operand is \<open>NaN\<close>, and the two zeros
  are equal.
\<close>

fun num_key :: "number \<Rightarrow> int \<times> rat" where
  "num_key NegInf = (- 1, 0)"
| "num_key PosInf = (1, 0)"
| "num_key NegZero = (0, 0)"
| "num_key (Fin x) = (0, x)"
| "num_key NaN = (2, 0)"

definition less_num :: "number \<Rightarrow> number \<Rightarrow> bool" where
  "less_num a b =
     (a \<noteq> NaN \<and> b \<noteq> NaN
      \<and> (fst (num_key a) < fst (num_key b)
         \<or> fst (num_key a) = fst (num_key b) \<and> snd (num_key a) < snd (num_key b)))"

text \<open>
  \<^verbatim>\<open>Math.min\<close> and \<^verbatim>\<open>Math.max\<close> answer \<open>NaN\<close> when an argument is \<open>NaN\<close>; otherwise
  they scan the arguments from left to right, starting from \<open>+Infinity\<close> and \<open>-Infinity\<close>, with
  \<open>-0\<close> below \<open>+0\<close>.
\<close>

definition min_step :: "number \<Rightarrow> number \<Rightarrow> number" where
  "min_step lowest number =
     (if number = NegZero \<and> lowest = Fin 0 then NegZero
      else if less_num number lowest then number else lowest)"

definition max_step :: "number \<Rightarrow> number \<Rightarrow> number" where
  "max_step highest number =
     (if number = Fin 0 \<and> highest = NegZero then Fin 0
      else if less_num highest number then number else highest)"

definition math_min :: "number list \<Rightarrow> number" where
  "math_min numbers = (if NaN \<in> set numbers then NaN else foldl min_step PosInf numbers)"

definition math_max :: "number list \<Rightarrow> number" where
  "math_max numbers = (if NaN \<in> set numbers then NaN else foldl max_step NegInf numbers)"

text \<open>The result object \<^verbatim>\<open>{ sum, avg, min, max, count }\<close>.\<close>

record stats =
  s_sum :: number
  s_avg :: number
  s_min :: number
  s_max :: number
  s_count :: nat

text \<open>
  \<^verbatim>\<open>Math.min(...numbers)\<close> spreads the array into the arguments of one call. An engine
  accepts a bounded number of arguments, \<open>max_args\<close>, and raises \<open>RangeError\<close> beyond it;
  the sum has been computed by then, and nothing is returned.
\<close>

datatype range_error = RangeError

definition calculateStats :: "nat \<Rightarrow> number list \<Rightarrow> range_error + stats" where
  "calculateStats max_args numbers =
     (if numbers = [] then
        Inr \<lparr>s_sum = Fin 0, s_avg = Fin 0, s_min = Fin 0, s_max = Fin 0, s_count = 0\<rparr>
      else
        (let sum = foldl plus_num (Fin 0) numbers
         in if max_args < length numbers then Inl RangeError
            else Inr \<lparr>s_sum = sum,
                      s_avg = div_length sum (length numbers),
                      s_min = math_min numbers,
                      s_max = math_max numbers,
                      s_count = length numbers\<rparr>))"

subsection \<open>calculateCategoryTotals\<close>




subsection \<open>sortBy and applyFilters\<close>

text \<open>
  The filter bar offers four sort keys, \<^verbatim>\<open>date-desc\<close>, \<^verbatim>\<open>date-asc\<close>,
  \<^verbatim>\<open>amount-desc\<close> and \<^verbatim>\<open>amount-asc\<close>; \<open>applyFilters\<close> splits the key at the
  dash into the property and the order. Any order other than \<^verbatim>\<open>'asc'\<close> sorts
  descending.
\<close>

datatype sort_prop = PDate | PAmount

datatype sort_order = Asc | Desc

fun prop_val :: "sort_prop \<Rightarrow> expense \<Rightarrow> rat" where
  "prop_val PDate e = of_int (date e)"
| "prop_val PAmount e = amount e"

text \<open>The comparison function that \<open>sortBy\<close> hands to \<^verbatim>\<open>Array.prototype.sort\<close>.\<close>

definition sortBy_cmp :: "sort_prop \<Rightarrow> sort_order \<Rightarrow> expense \<Rightarrow> expense \<Rightarrow> int" where
  "sortBy_cmp prop ord a b =
     (let valA = prop_val prop a; valB = prop_val prop b
      in if ord = Asc then (if valA > valB then 1 else - 1)
         else (if valA < valB then 1 else - 1))"

text \<open>
  \<^verbatim>\<open>Array.prototype.sort\<close> belongs to the engine. ECMAScript fixes its result only for a
  consistent comparison function, one that answers 0 for a pair it does not order;
  otherwise the order is implementation-defined. \<open>array_sort\<close> is the insertion
  procedure of an engine on a short array: every element in turn is moved in front of
  the elements before it for as long as \<^verbatim>\<open>comparefn(element, earlier) < 0\<close>, the
  argument order in which V8 consults the function. \<open>insert_back\<close> works on the
  sorted part in reverse, its last element first.
\<close>

fun insert_back :: "('a \<Rightarrow> 'a \<Rightarrow> int) \<Rightarrow> 'a \<Rightarrow> 'a list \<Rightarrow> 'a list" where
  "insert_back comparefn x [] = [x]"
| "insert_back comparefn x (y # ys) =
     (if comparefn x y < 0 then y # insert_back comparefn x ys else x # y # ys)"

definition array_sort :: "('a \<Rightarrow> 'a \<Rightarrow> int) \<Rightarrow> 'a list \<Rightarrow> 'a list" where
  "array_sort comparefn xs = rev (foldl (\<lambda>acc x. insert_back comparefn x acc) [] xs)"

definition sortBy :: "expense list \<Rightarrow> sort_prop \<Rightarrow> sort_order \<Rightarrow> expense list" where
  "sortBy arr prop ord = array_sort (sortBy_cmp prop ord) arr"

record filters =
  searchQuery :: string
  f_category :: string
  dateRange :: string
  f_sortBy :: "(sort_prop \<times> sort_order) option"

text \<open>
  The strings of a record are sequences of code units below 256, the Latin-1 range. There
  \<^verbatim>\<open>toLowerCase\<close> maps the capital letters, which are A to Z and the code units 192 to
  222 other than the multiplication sign 215, to the small letters 32 above them, and
  leaves every other code unit as it is. \<open>includes_str\<close> is
  \<^verbatim>\<open>String.prototype.includes\<close>.
\<close>

definition upper_case :: "char \<Rightarrow> bool" where
  "upper_case c =
     (CHR ''A'' \<le> c \<and> c \<le> CHR ''Z''
      \<or> (192 :: nat) \<le> of_char c \<and> of_char c \<le> (214 :: nat)
      \<or> (216 :: nat) \<le> of_char c \<and> of_char c \<le> (222 :: nat))"

definition toLowerCase :: "string \<Rightarrow> string" where
  "toLowerCase s = map (\<lambda>c. if upper_case c then char_of (of_char c + (32 :: nat)) else c) s"

fun starts_with :: "string \<Rightarrow> string \<Rightarrow> bool" where
  "starts_with s [] = True"
| "starts_with [] (q # qs) = False"
| "starts_with (c # cs) (q # qs) = (c = q \<and> starts_with cs qs)"

fun includes_str :: "string \<Rightarrow> string \<Rightarrow> bool" where
  "includes_str [] q = (q = [])"
| "includes_str (c # cs) q = (starts_with (c # cs) q \<or> includes_str cs q)"

text \<open>
  \<open>getDateRange\<close> reads the clock and the local calendar; \<open>applyFilters\<close> takes it as
  a parameter that gives the first and the last timestamp of a named range.
\<close>

definition applyFilters ::
  "(string \<Rightarrow> int \<times> int) \<Rightarrow> expense list \<Rightarrow> filters \<Rightarrow> expense list" where
  "applyFilters getDateRange expenses fs =
     (let r0 = expenses;
          r1 = (if searchQuery fs \<noteq> [] then
                  filter (\<lambda>e. includes_str (toLowerCase (description e)) (toLowerCase (searchQuery fs))
                             \<or> includes_str (toLowerCase (category e)) (toLowerCase (searchQuery fs))) r0
                else r0);
          r2 = (if f_category fs \<noteq> [] \<and> f_category fs \<noteq> ''all'' then
                  filter (\<lambda>e. category e = f_category fs) r1
                else r1);
          r3 = (if dateRange fs \<noteq> [] \<and> dateRange fs \<noteq> ''all'' then
                  filter (\<lambda>e. fst (getDateRange (dateRange fs)) \<le> date e
                             \<and> date e \<le> snd (getDateRange (dateRange fs))) r2
                else r2)
      in case f_sortBy fs of
           None \<Rightarrow> r3
         | Some (prop, ord) \<Rightarrow> sortBy r3 prop ord)"

section \<open>State store (store.js)\<close>

text \<open>
  A JavaScript value is a primitive or a reference to an object of the heap. Functions,
  symbols and dates do not occur as state values here. \<open>NonFinite\<close> stands for
  \<open>NaN\<close> and the two infinities.
\<close>

datatype jsval =
    Undefined
  | Null
  | JBool bool
  | Num rat
  | NonFinite
  | Str string
  | Ref nat

text \<open>
  A plain object is its list of own properties in insertion order: an assignment
  \<^verbatim>\<open>o[k] = v\<close> replaces the value of an existing property in place and appends a new
  one (\<open>AList.update\<close>); reading a missing property gives \<open>undefined\<close>. The
  properties that every object inherits from \<^verbatim>\<open>Object.prototype\<close> are not keys of
  the state.
\<close>

type_synonym js_object = "(string \<times> jsval) list"

definition get_prop :: "js_object \<Rightarrow> string \<Rightarrow> jsval" where
  "get_prop obj key = (case map_of obj key of None \<Rightarrow> Undefined | Some v \<Rightarrow> v)"

text \<open>
  A callback is a function reference, compared by identity: two registrations of the
  same function carry the same reference. A \<^verbatim>\<open>Set\<close> of callbacks is the list of its
  members in insertion order, without repetition.
\<close>

type_synonym callback = nat

definition set_add :: "'a \<Rightarrow> 'a list \<Rightarrow> 'a list" where
  "set_add x xs = (if x \<in> set xs then xs else xs @ [x])"

definition set_delete :: "'a \<Rightarrow> 'a list \<Rightarrow> 'a list" where
  "set_delete x xs = removeAll x xs"

text \<open>The fields \<^verbatim>\<open>_state\<close>, \<^verbatim>\<open>_listeners\<close> and \<^verbatim>\<open>_middlewares\<close> of a \<^verbatim>\<open>Store\<close>.\<close>

record store =
  state :: js_object
  listeners :: "string \<rightharpoonup> callback list"
  middlewares :: "callback list"

definition new_Store :: "js_object \<Rightarrow> store" where
  "new_Store initialState = \<lparr>state = initialState, listeners = Map.empty, middlewares = []\<rparr>"

text \<open>
  What the store does to the outside is the calls it makes. An event records one call
  with its arguments: a middleware with \<^verbatim>\<open>{ key, oldValue, newValue, state }\<close>, a
  listener of a key with \<^verbatim>\<open>(value, oldValue)\<close>, a listener of \<^verbatim>\<open>'*'\<close> with the state
  object and the changed key or keys. The state object is recorded by its properties at
  the time of the call.
\<close>

datatype changed = Key string | Keys "string list"

datatype event =
    Middleware callback string jsval jsval js_object
  | Listener callback jsval jsval
  | Global callback js_object changed

text \<open>
  The callbacks are code of the host. What the store depends on is whether a call
  returns or throws, given by a predicate on events. A callback does not call back into
  the store and does not assign to the state object it is handed. \<open>forEach\<close> runs the
  calls in order; an exception ends the loop and leaves the method.
\<close>

datatype completion = Returned | Thrown

fun forEach :: "(event \<Rightarrow> bool) \<Rightarrow> event list \<Rightarrow> event list \<times> completion" where
  "forEach throws [] = ([], Returned)"
| "forEach throws (c # cs) =
     (if throws c then ([c], Thrown)
      else (case forEach throws cs of (tr, r) \<Rightarrow> (c # tr, r)))"

text \<open>One statement after another: the second runs only when the first returned.\<close>

definition and_then ::
  "event list \<times> completion \<Rightarrow> event list \<times> completion \<Rightarrow> event list \<times> completion" where
  "and_then first second =
     (case first of
        (tr, Thrown) \<Rightarrow> (tr, Thrown)
      | (tr, Returned) \<Rightarrow> (tr @ fst second, snd second))"

text \<open>
  \<^verbatim>\<open>if (this._listeners.has(k)) this._listeners.get(k).forEach(...)\<close>
\<close>

definition notify ::
  "(event \<Rightarrow> bool) \<Rightarrow> store \<Rightarrow> string \<Rightarrow> (callback \<Rightarrow> event) \<Rightarrow> event list \<times> completion" where
  "notify throws s k call =
     (case listeners s k of
        None \<Rightarrow> ([], Returned)
      | Some cbs \<Rightarrow> forEach throws (map call cbs))"

text \<open>
  \<open>setState\<close> returns the store after the call, the calls made, in order, and whether
  the method returned or an exception of a callback left it.
\<close>

definition setState ::
  "(event \<Rightarrow> bool) \<Rightarrow> string \<Rightarrow> jsval \<Rightarrow> store \<Rightarrow> store \<times> event list \<times> completion" where
  "setState throws key val s =
     (let oldValue = get_prop (state s) key;
          s' = s\<lparr>state := AList.update key val (state s)\<rparr>
      in (s',
          and_then (forEach throws (map (\<lambda>m. Middleware m key oldValue val (state s')) (middlewares s')))
         (and_then (notify throws s' key (\<lambda>c. Listener c val oldValue))
                   (notify throws s' ''*'' (\<lambda>c. Global c (state s') (Key key))))))"

text \<open>
  \<open>subscribe\<close> returns the store and the unsubscribe function. That function is a
  closure over \<open>key\<close> and \<open>callback\<close> and nothing else; calling it is \<open>dispose\<close>.
  \<^verbatim>\<open>this._listeners.get(key)\<close> of a key without an entry is \<open>undefined\<close>, and the
  method call on it a \<open>TypeError\<close>.
\<close>

datatype disposer = Disposer string callback

datatype js_error = TypeError | URIError

definition subscribe :: "string \<Rightarrow> callback \<Rightarrow> store \<Rightarrow> store \<times> disposer" where
  "subscribe key cb s =
     (let ls = (case listeners s key of
                  None \<Rightarrow> (listeners s)(key \<mapsto> [])
                | Some _ \<Rightarrow> listeners s)
      in (s\<lparr>listeners := ls(key \<mapsto> set_add cb (case ls key of None \<Rightarrow> [] | Some cbs \<Rightarrow> cbs))\<rparr>,
          Disposer key cb))"

fun dispose :: "disposer \<Rightarrow> store \<Rightarrow> js_error + store" where
  "dispose (Disposer key cb) s =
     (case listeners s key of
        None \<Rightarrow> Inl TypeError
      | Some cbs \<Rightarrow> Inr (s\<lparr>listeners := (listeners s)(key \<mapsto> set_delete cb cbs)\<rparr>))"

definition use :: "callback \<Rightarrow> store \<Rightarrow> store" where
  "use middleware s = s\<lparr>middlewares := middlewares s @ [middleware]\<rparr>"

text \<open>
  \<open>batchUpdate\<close> takes the entries of \<^verbatim>\<open>updates\<close> in the order of
  \<^verbatim>\<open>Object.entries\<close>.
\<close>

definition batchUpdate ::
  "(event \<Rightarrow> bool) \<Rightarrow> (string \<times> jsval) list \<Rightarrow> store \<Rightarrow> store \<times> event list \<times> completion" where
  "batchUpdate throws updates s =
     (let s' = s\<lparr>state := foldl (\<lambda>st (key, val). AList.update key val st) (state s) updates\<rparr>
      in (s', notify throws s' ''*'' (\<lambda>c. Global c (state s') (Keys (map fst updates)))))"

text \<open>
  A history of the store: any calls of its methods and of unsubscribe functions, one
  after the other. An exception that leaves a method leaves the store as the method
  made it up to there.
\<close>

datatype store_op =
    SetState string jsval
  | Subscribe string callback
  | Dispose disposer
  | Use callback
  | BatchUpdate "(string \<times> jsval) list"

fun run_op :: "(event \<Rightarrow> bool) \<Rightarrow> store \<Rightarrow> store_op \<Rightarrow> store" where
  "run_op throws s (SetState key val) = fst (setState throws key val s)"
| "run_op throws s (Subscribe key cb) = fst (subscribe key cb s)"
| "run_op throws s (Dispose d) = (case dispose d s of Inl e \<Rightarrow> s | Inr s' \<Rightarrow> s')"
| "run_op throws s (Use m) = use m s"
| "run_op throws s (BatchUpdate updates) = fst (batchUpdate throws updates s)"

definition run_ops :: "(event \<Rightarrow> bool) \<Rightarrow> store \<Rightarrow> store_op list \<Rightarrow> store" where
  "run_ops throws s ops = foldl (run_op throws) s ops"

text \<open>
  Notions for stating properties of the store: the callbacks registered for a key, in
  the order of their registration; the representation invariant of the \<^verbatim>\<open>Set\<close>s,
  which hold no callback twice; and what it is for a result to be a run of a list of
  calls: the calls made are a prefix of the list, the whole list when the run returned.
\<close>

definition registered :: "store \<Rightarrow> string \<Rightarrow> callback list" where
  "registered s k = (case listeners s k of None \<Rightarrow> [] | Some cbs \<Rightarrow> cbs)"

definition store_inv :: "store \<Rightarrow> bool" where
  "store_inv s = (\<forall>k. distinct (registered s k))"

definition runs :: "event list \<times> completion \<Rightarrow> event list \<Rightarrow> bool" where
  "runs res calls = (prefix (fst res) calls \<and> (snd res = Returned \<longrightarrow> fst res = calls))"

section \<open>Router (router.js)\<close>

subsection \<open>Strings of the platform\<close>

text \<open>
  The fragment is a JavaScript string: a sequence of UTF-16 code units, here natural
  numbers. \<open>units\<close> writes one from a literal.
\<close>

type_synonym jsstring = "nat list"

definition units :: "string \<Rightarrow> jsstring" where
  "units s = map of_char s"

text \<open>\<^verbatim>\<open>s.split(sep)\<close> for a separator of one code unit: never an empty array.\<close>

fun split_str :: "nat \<Rightarrow> jsstring \<Rightarrow> jsstring list" where
  "split_str sep [] = [[]]"
| "split_str sep (c # cs) =
     (if c = sep then [] # split_str sep cs
      else (case split_str sep cs of
              [] \<Rightarrow> [[c]]
            | p # ps \<Rightarrow> (c # p) # ps))"

text \<open>
  \<^verbatim>\<open>decodeURIComponent\<close>, after the algorithm Decode of ECMAScript with an empty set of
  preserved characters. A \<open>%\<close> (code unit 37) must be followed by two hexadecimal digits,
  which give an octet. An octet below 128 is a character. Any other octet must start
  a well-formed UTF-8 sequence of two to four octets, every further one escaped as well;
  its code point is appended in UTF-16. Everything else is a \<open>URIError\<close>.
\<close>

definition hex_digit :: "nat \<Rightarrow> nat option" where
  "hex_digit c =
     (if 48 \<le> c \<and> c \<le> 57 then Some (c - 48)
      else if 65 \<le> c \<and> c \<le> 70 then Some (c - 55)
      else if 97 \<le> c \<and> c \<le> 102 then Some (c - 87)
      else None)"

definition hex_octet :: "jsstring \<Rightarrow> nat option" where
  "hex_octet cs =
     (case cs of
        h1 # h2 # _ \<Rightarrow>
          (case hex_digit h1 of
             None \<Rightarrow> None
           | Some a \<Rightarrow> (case hex_digit h2 of None \<Rightarrow> None | Some b \<Rightarrow> Some (16 * a + b)))
      | _ \<Rightarrow> None)"

text \<open>The number of octets that the first octet of a UTF-8 sequence announces.\<close>

definition leading_ones :: "nat \<Rightarrow> nat" where
  "leading_ones b =
     (if b < 128 then 0 else if b < 192 then 1 else if b < 224 then 2
      else if b < 240 then 3 else if b < 248 then 4 else 5)"

text \<open>The \<open>j\<close> escaped octets that continue a sequence.\<close>

fun continuation :: "nat \<Rightarrow> jsstring \<Rightarrow> nat list option" where
  "continuation 0 cs = Some []"
| "continuation (Suc j) [] = None"
| "continuation (Suc j) (p # rest) =
     (if p \<noteq> 37 then None
      else (case hex_octet rest of
              None \<Rightarrow> None
            | Some b \<Rightarrow>
                (case continuation j (drop 2 rest) of
                   None \<Rightarrow> None
                 | Some bs \<Rightarrow> Some (b # bs))))"

text \<open>
  The code point of a UTF-8 sequence, if it is well formed: continuation octets between
  128 and 191, no overlong form, no surrogate, nothing above 10FFFF.
\<close>

definition utf8_code_point :: "nat \<Rightarrow> nat list \<Rightarrow> nat option" where
  "utf8_code_point b bs =
     (let n = leading_ones b;
          v = foldl (\<lambda>acc c. acc * 64 + (c - 128)) (b mod 2 ^ (7 - n)) bs
      in if list_all (\<lambda>c. 128 \<le> c \<and> c < 192) bs
            \<and> (if n = 2 then 128 else if n = 3 then 2048 else 65536) \<le> v
            \<and> \<not> (55296 \<le> v \<and> v < 57344)
            \<and> v \<le> 1114111
         then Some v else None)"

definition utf16_encode :: "nat \<Rightarrow> jsstring" where
  "utf16_encode v =
     (if v < 65536 then [v]
      else [55296 + (v - 65536) div 1024, 56320 + (v - 65536) mod 1024])"

text \<open>
  What follows a \<open>%\<close>: the code units it stands for, and how many code units of the
  input were read.
\<close>

definition escape_seq :: "jsstring \<Rightarrow> (jsstring \<times> nat) option" where
  "escape_seq cs =
     (case hex_octet cs of
        None \<Rightarrow> None
      | Some b \<Rightarrow>
          (let n = leading_ones b
           in if n = 0 then Some ([b], 2)
              else if n = 1 \<or> n > 4 then None
              else (case continuation (n - 1) (drop 2 cs) of
                      None \<Rightarrow> None
                    | Some bs \<Rightarrow>
                        (case utf8_code_point b bs of
                           None \<Rightarrow> None
                         | Some v \<Rightarrow> Some (utf16_encode v, 2 + 3 * (n - 1))))))"

function decodeURIComponent :: "jsstring \<Rightarrow> js_error + jsstring" where
  "decodeURIComponent [] = Inr []"
| "decodeURIComponent (c # cs) =
     (if c \<noteq> 37 then
        (case decodeURIComponent cs of Inl e \<Rightarrow> Inl e | Inr r \<Rightarrow> Inr (c # r))
      else
        (case escape_seq cs of
           None \<Rightarrow> Inl URIError
         | Some (s, k) \<Rightarrow>
             (case decodeURIComponent (drop k cs) of
                Inl e \<Rightarrow> Inl e
              | Inr r \<Rightarrow> Inr (s @ r))))"
  by pat_completeness auto
termination
  by (relation "measure length") auto

subsection \<open>parseHash\<close>

text \<open>
  A query parameter object is a plain object from decoded keys to decoded values.
  \<^verbatim>\<open>const [key, value] = pair.split('=')\<close> takes the part of a pair before the first
  \<open>=\<close> (code unit 61) as the key and the part up to the second as the value; the value
  that is decoded is \<^verbatim>\<open>value || ''\<close>, empty when that part is missing or empty.
  \<open>parse_pairs\<close> is the \<open>forEach\<close> over the pairs; it decodes the key first.
\<close>

type_synonym params = "(jsstring \<times> jsstring) list"

definition pair_key :: "jsstring \<Rightarrow> jsstring" where
  "pair_key pair = (case split_str 61 pair of [] \<Rightarrow> [] | k # _ \<Rightarrow> k)"

definition pair_value :: "jsstring \<Rightarrow> jsstring" where
  "pair_value pair = (case split_str 61 pair of _ # v # _ \<Rightarrow> v | _ \<Rightarrow> [])"

fun parse_pairs :: "jsstring list \<Rightarrow> params \<Rightarrow> js_error + params" where
  "parse_pairs [] ps = Inr ps"
| "parse_pairs (pair # pairs) ps =
     (case decodeURIComponent (pair_key pair) of
        Inl e \<Rightarrow> Inl e
      | Inr k \<Rightarrow>
          (case decodeURIComponent (pair_value pair) of
             Inl e \<Rightarrow> Inl e
           | Inr v \<Rightarrow> parse_pairs pairs (AList.update k v ps)))"

text \<open>
  \<open>parseHash\<close> takes \<^verbatim>\<open>window.location.hash\<close>: empty, or the fragment with its
  leading \<open>#\<close>. The path is the part before the first \<open>?\<close> (code unit 63), the query
  string the part up to the second; it is skipped when missing or empty. Pairs are
  separated by \<open>&\<close> (code unit 38).
\<close>

definition parseHash :: "jsstring \<Rightarrow> js_error + (jsstring \<times> params)" where
  "parseHash location_hash =
     (let hash = (if drop 1 location_hash = [] then units ''dashboard'' else drop 1 location_hash);
          parts = split_str 63 hash;
          path = (case parts of [] \<Rightarrow> [] | p # _ \<Rightarrow> p);
          queryString = (case parts of _ # q # _ \<Rightarrow> q | _ \<Rightarrow> [])
      in if queryString = [] then Inr (path, [])
         else (case parse_pairs (split_str 38 queryString) [] of
                 Inl e \<Rightarrow> Inl e
               | Inr ps \<Rightarrow> Inr (path, ps)))"

text \<open>
  Notions for stating properties of \<open>parseHash\<close>: the pairs of the query string of a
  fragment, none when the query string is missing or empty; and a pair is rejected when
  \<^verbatim>\<open>decodeURIComponent\<close> raises on its key or on its value.
\<close>

definition query_pairs :: "jsstring \<Rightarrow> jsstring list" where
  "query_pairs location_hash =
     (let hash = (if drop 1 location_hash = [] then units ''dashboard'' else drop 1 location_hash);
          queryString = (case split_str 63 hash of _ # q # _ \<Rightarrow> q | _ \<Rightarrow> [])
      in if queryString = [] then [] else split_str 38 queryString)"

definition rejected :: "jsstring \<Rightarrow> bool" where
  "rejected pair =
     (decodeURIComponent (pair_key pair) = Inl URIError
      \<or> decodeURIComponent (pair_value pair) = Inl URIError)"

subsection \<open>The transition\<close>

record router =
  routes :: "jsstring \<rightharpoonup> callback"
  currentRoute :: "jsstring option"
  beforeHooks :: "callback list"
  afterHooks :: "callback list"
  notFoundHandler :: "callback option"

definition new_Router :: router where
  "new_Router = \<lparr>routes = Map.empty, currentRoute = None, beforeHooks = [], afterHooks = [],
     notFoundHandler = None\<rparr>"

definition on :: "jsstring \<Rightarrow> callback \<Rightarrow> router \<Rightarrow> router" where
  "on path handler r = r\<lparr>routes := (routes r)(path \<mapsto> handler)\<rparr>"

definition notFound :: "callback \<Rightarrow> router \<Rightarrow> router" where
  "notFound handler r = r\<lparr>notFoundHandler := Some handler\<rparr>"

definition beforeEach :: "callback \<Rightarrow> router \<Rightarrow> router" where
  "beforeEach hook r = r\<lparr>beforeHooks := beforeHooks r @ [hook]\<rparr>"

definition afterEach :: "callback \<Rightarrow> router \<Rightarrow> router" where
  "afterEach hook r = r\<lparr>afterHooks := afterHooks r @ [hook]\<rparr>"

text \<open>
  The calls of a transition: a before hook with the new path and the previous route, a
  route handler with the parameters, the not-found handler with the path, the update of
  the navigation links, an after hook with the new path and the previous route.
\<close>

datatype router_event =
    BeforeHook callback jsstring "jsstring option"
  | Handler callback params
  | NotFoundHandler callback jsstring
  | UpdateNavLinks jsstring
  | AfterHook callback jsstring "jsstring option"

text \<open>
  Hooks and handlers are code of the host, and every call is awaited. What the router
  depends on is whether the awaited call gives the boolean \<open>false\<close>, gives anything
  else, or throws (or rejects). One transition runs at a time.
\<close>

datatype hook_result = ReturnsFalse | ReturnsOther | Throws

datatype transition = Navigated | Cancelled | Rejected

text \<open>
  The loop over the before hooks: \<^verbatim>\<open>if (result === false) return\<close>. The result is
  \<open>None\<close> when every hook let the transition pass.
\<close>

fun run_beforeHooks ::
  "(router_event \<Rightarrow> hook_result) \<Rightarrow> jsstring \<Rightarrow> jsstring option \<Rightarrow> callback list
     \<Rightarrow> router_event list \<times> transition option" where
  "run_beforeHooks host path previousRoute [] = ([], None)"
| "run_beforeHooks host path previousRoute (hook # hooks) =
     (case host (BeforeHook hook path previousRoute) of
        ReturnsFalse \<Rightarrow> ([BeforeHook hook path previousRoute], Some Cancelled)
      | Throws \<Rightarrow> ([BeforeHook hook path previousRoute], Some Rejected)
      | ReturnsOther \<Rightarrow>
          (case run_beforeHooks host path previousRoute hooks of
             (tr, res) \<Rightarrow> (BeforeHook hook path previousRoute # tr, res)))"

text \<open>Awaited calls one after the other, up to the first that throws.\<close>

fun await_all ::
  "(router_event \<Rightarrow> hook_result) \<Rightarrow> router_event list \<Rightarrow> router_event list \<times> transition" where
  "await_all host [] = ([], Navigated)"
| "await_all host (c # cs) =
     (if host c = Throws then ([c], Rejected)
      else (case await_all host cs of (tr, res) \<Rightarrow> (c # tr, res)))"

definition handleRouteChange ::
  "(router_event \<Rightarrow> hook_result) \<Rightarrow> jsstring \<Rightarrow> router
     \<Rightarrow> router \<times> router_event list \<times> transition" where
  "handleRouteChange host location_hash r =
     (case parseHash location_hash of
        Inl e \<Rightarrow> (r, [], Rejected)
      | Inr (path, ps) \<Rightarrow>
          (let previousRoute = currentRoute r
           in case run_beforeHooks host path previousRoute (beforeHooks r) of
                (tr, Some res) \<Rightarrow> (r, tr, res)
              | (tr, None) \<Rightarrow>
                  (let r' = r\<lparr>currentRoute := Some path\<rparr>;
                       handler_call =
                         (case routes r' path of
                            Some handler \<Rightarrow> [Handler handler ps]
                          | None \<Rightarrow>
                              (case notFoundHandler r' of
                                 Some handler \<Rightarrow> [NotFoundHandler handler path]
                               | None \<Rightarrow> []))
                   in case await_all host
                          (handler_call @ [UpdateNavLinks path]
                           @ map (\<lambda>hook. AfterHook hook path previousRoute) (afterHooks r')) of
                        (tr', res) \<Rightarrow> (r', tr @ tr', res))))"

section \<open>Snapshots of the state (Store.getState)\<close>

text \<open>
  \<open>getState\<close> is \<^verbatim>\<open>JSON.parse(JSON.stringify(this._state))\<close>. What it shares with
  the state depends on the objects that the values of the state refer to, so objects
  live in a heap: a list of objects, an address being an index. An object is a plain
  object or an array. New objects are allocated at the end; no object is ever freed.
\<close>

datatype obj = Obj js_object | Arr "jsval list"

type_synonym heap = "obj list"

text \<open>The text that \<^verbatim>\<open>JSON.stringify\<close> writes and \<^verbatim>\<open>JSON.parse\<close> reads, as a tree.\<close>

datatype json =
    JNull
  | JBoolean bool
  | JNumber rat
  | JString string
  | JArray "json list"
  | JObject "(string \<times> json) list"

text \<open>
  \<^verbatim>\<open>JSON.stringify\<close>, after SerializeJSONProperty of ECMAScript. \<open>stack\<close> holds the
  objects that are being written: meeting one of them again is the \<open>TypeError\<close> of a
  cyclic structure. A value that has no JSON form (\<open>undefined\<close>) gives \<open>None\<close>: as
  the value of a property it is left out, as an element of an array it is written
  \<open>null\<close>. A number that is not finite is written \<open>null\<close>. The recursion ends
  because every nested object takes one more address of the heap onto the stack.
\<close>

definition unvisited :: "heap \<Rightarrow> nat list \<Rightarrow> nat" where
  "unvisited h stack = card ({..<length h} - set stack)"

lemma unvisited_push:
  "a < length h \<Longrightarrow> a \<notin> set stack \<Longrightarrow> unvisited h (a # stack) < unvisited h stack"
  unfolding unvisited_def by (intro psubset_card_mono) auto

function to_json :: "heap \<Rightarrow> nat list \<Rightarrow> jsval \<Rightarrow> js_error + json option"
  and to_json_props :: "heap \<Rightarrow> nat list \<Rightarrow> js_object \<Rightarrow> js_error + (string \<times> json) list"
  and to_json_elems :: "heap \<Rightarrow> nat list \<Rightarrow> jsval list \<Rightarrow> js_error + json list"
where
  "to_json h stack Undefined = Inr None"
| "to_json h stack Null = Inr (Some JNull)"
| "to_json h stack (JBool b) = Inr (Some (JBoolean b))"
| "to_json h stack (Num n) = Inr (Some (JNumber n))"
| "to_json h stack NonFinite = Inr (Some JNull)"
| "to_json h stack (Str s) = Inr (Some (JString s))"
| "to_json h stack (Ref a) =
     (if a \<in> set stack then Inl TypeError
      else if a < length h then
        (case h ! a of
           Obj ps \<Rightarrow>
             (case to_json_props h (a # stack) ps of
                Inl e \<Rightarrow> Inl e
              | Inr ms \<Rightarrow> Inr (Some (JObject ms)))
         | Arr vs \<Rightarrow>
             (case to_json_elems h (a # stack) vs of
                Inl e \<Rightarrow> Inl e
              | Inr js \<Rightarrow> Inr (Some (JArray js))))
      else Inr None)"
| "to_json_props h stack [] = Inr []"
| "to_json_props h stack ((k, v) # ps) =
     (case to_json h stack v of
        Inl e \<Rightarrow> Inl e
      | Inr None \<Rightarrow> to_json_props h stack ps
      | Inr (Some j) \<Rightarrow>
          (case to_json_props h stack ps of
             Inl e \<Rightarrow> Inl e
           | Inr ms \<Rightarrow> Inr ((k, j) # ms)))"
| "to_json_elems h stack [] = Inr []"
| "to_json_elems h stack (v # vs) =
     (case to_json h stack v of
        Inl e \<Rightarrow> Inl e
      | Inr None \<Rightarrow>
          (case to_json_elems h stack vs of
             Inl e \<Rightarrow> Inl e
           | Inr js \<Rightarrow> Inr (JNull # js))
      | Inr (Some j) \<Rightarrow>
          (case to_json_elems h stack vs of
             Inl e \<Rightarrow> Inl e
           | Inr js \<Rightarrow> Inr (j # js)))"
  by pat_completeness auto
termination
  by (relation "inv_image (less_than <*lex*> less_than)
        (\<lambda>x. case x of
           Inl (h, stack, v) \<Rightarrow> (unvisited h stack, 0)
         | Inr (Inl (h, stack, ps)) \<Rightarrow> (unvisited h stack, Suc (length ps))
         | Inr (Inr (h, stack, vs)) \<Rightarrow> (unvisited h stack, Suc (length vs)))")
     (auto simp: unvisited_push)

text \<open>
  \<^verbatim>\<open>JSON.parse\<close>: every array and every object of the text is a new object of the
  heap, allocated after the objects inside it. The members of an object come from an
  object that was written, so no key occurs twice.
\<close>

fun from_json :: "json \<Rightarrow> heap \<Rightarrow> heap \<times> jsval"
  and from_json_props :: "(string \<times> json) list \<Rightarrow> heap \<Rightarrow> heap \<times> js_object"
  and from_json_elems :: "json list \<Rightarrow> heap \<Rightarrow> heap \<times> jsval list"
where
  "from_json JNull h = (h, Null)"
| "from_json (JBoolean b) h = (h, JBool b)"
| "from_json (JNumber n) h = (h, Num n)"
| "from_json (JString s) h = (h, Str s)"
| "from_json (JArray js) h =
     (case from_json_elems js h of (h', vs) \<Rightarrow> (h' @ [Arr vs], Ref (length h')))"
| "from_json (JObject ms) h =
     (case from_json_props ms h of (h', ps) \<Rightarrow> (h' @ [Obj ps], Ref (length h')))"
| "from_json_props [] h = (h, [])"
| "from_json_props ((k, j) # ms) h =
     (case from_json j h of (h1, v) \<Rightarrow>
      case from_json_props ms h1 of (h2, ps) \<Rightarrow> (h2, (k, v) # ps))"
| "from_json_elems [] h = (h, [])"
| "from_json_elems (j # js) h =
     (case from_json j h of (h1, v) \<Rightarrow>
      case from_json_elems js h1 of (h2, vs) \<Rightarrow> (h2, v # vs))"

text \<open>
  \<open>getState\<close> returns the heap with the new objects and the reference to the copy, or
  the error of \<^verbatim>\<open>JSON.stringify\<close>. The state object is the one of the store record.
\<close>

definition getState :: "heap \<Rightarrow> store \<Rightarrow> js_error + (heap \<times> jsval)" where
  "getState h s =
     (case to_json_props h [] (state s) of
        Inl e \<Rightarrow> Inl e
      | Inr ms \<Rightarrow> Inr (from_json (JObject ms) h))"

text \<open>
  Notions for stating properties of snapshots. The addresses a value and an object
  refer to; a heap is closed for a state object when every reference in the state and in
  the heap is the address of an object of the heap, as it is in every heap of a running
  program; and the addresses reachable from a set of addresses.
\<close>

fun val_refs :: "jsval \<Rightarrow> nat list" where
  "val_refs (Ref a) = [a]"
| "val_refs v = []"

fun obj_refs :: "obj \<Rightarrow> nat list" where
  "obj_refs (Obj ps) = concat (map (\<lambda>(k, v). val_refs v) ps)"
| "obj_refs (Arr vs) = concat (map val_refs vs)"

definition closed_heap :: "heap \<Rightarrow> js_object \<Rightarrow> bool" where
  "closed_heap h st =
     (list_all (\<lambda>a. a < length h) (obj_refs (Obj st))
      \<and> list_all (\<lambda>ob. list_all (\<lambda>a. a < length h) (obj_refs ob)) h)"

inductive_set reach :: "heap \<Rightarrow> nat set \<Rightarrow> nat set" for h :: heap and roots :: "nat set" where
  root: "a \<in> roots \<Longrightarrow> a \<in> reach h roots"
| step: "a \<in> reach h roots \<Longrightarrow> a < length h \<Longrightarrow> b \<in> set (obj_refs (h ! a)) \<Longrightarrow> b \<in> reach h roots"

text \<open>
  The new part of a heap: \<open>region h h'\<close> says that \<open>h'\<close> is \<open>h\<close> with objects added
  at the end, and that the added objects refer to added objects only.
\<close>

definition refs_in :: "nat \<Rightarrow> nat \<Rightarrow> nat list \<Rightarrow> bool" where
  "refs_in lo hi xs = (\<forall>a\<in>set xs. lo \<le> a \<and> a < hi)"

definition region :: "heap \<Rightarrow> heap \<Rightarrow> bool" where
  "region h h' = (\<exists>new. h' = h @ new \<and> (\<forall>ob\<in>set new. refs_in (length h) (length h') (obj_refs ob)))"

definition closed_cells :: "heap \<Rightarrow> bool" where
  "closed_cells h = list_all (\<lambda>ob. list_all (\<lambda>a. a < length h) (obj_refs ob)) h"

section \<open>Properties of the query engine\<close>

subsection \<open>Rounding to a double\<close>

lemma pow2_powi: "pow2 e = 2 powi e"
  by (simp add: pow2_def power_int_def inverse_eq_divide power_one_over)

lemma pow2_pos: "0 < pow2 e"
  by (simp add: pow2_powi zero_less_power_int)

lemma pow2_add: "pow2 (a + b) = pow2 a * pow2 b"
  by (simp add: pow2_powi power_int_add)

lemma pow2_mono: "a \<le> b \<Longrightarrow> pow2 a \<le> pow2 b"
  by (simp add: pow2_powi power_int_increasing)

lemma pow2_less_cancel: "pow2 a < pow2 b \<Longrightarrow> a < b"
proof (rule ccontr)
  assume l: "pow2 a < pow2 b" and "\<not> a < b"
  then have "b \<le> a" by simp
  then have "pow2 b \<le> pow2 a"
    by (rule pow2_mono)
  with l show False by simp
qed

lemma pow2_nat: "pow2 (int n) = 2 ^ n"
  by (simp add: pow2_def)

text \<open>\<open>ilog2 x\<close> is the exponent of the binade of \<open>x\<close>.\<close>

lemma quotient_bounds:
  assumes "0 < x" and "quotient_of x = (p, q)"
  shows "pow2 (bitlen p - bitlen q - 1) < x \<and> x < pow2 (bitlen p - bitlen q + 1)"
proof -
  from assms(2) have q: "0 < q" by (rule quotient_of_denom_pos)
  from assms(2) have x: "x = of_int p / of_int q" by (rule quotient_of_div)
  with assms(1) q have p: "0 < p"
    by (simp add: zero_less_divide_iff)
  define a where "a = bitlen p"
  define b where "b = bitlen q"
  from p have a: "0 < a"
    using bitlen_le_iff_power [of p 0] by (simp add: a_def)
  from q have b: "0 < b"
    using bitlen_le_iff_power [of q 0] by (simp add: b_def)
  from bitlen_bounds [OF p] have "2 ^ nat (a - 1) \<le> p" "p < 2 ^ nat a"
    by (simp_all add: a_def)
  then have pl: "pow2 (a - 1) \<le> of_int p" and pu: "rat_of_int p < pow2 a"
    using a by (simp_all add: pow2_def of_int_le_iff [symmetric] of_int_less_iff [symmetric]
        del: of_int_le_iff of_int_less_iff)
  from bitlen_bounds [OF q] have "2 ^ nat (b - 1) \<le> q" "q < 2 ^ nat b"
    by (simp_all add: b_def)
  then have ql: "pow2 (b - 1) \<le> of_int q" and qu: "rat_of_int q < pow2 b"
    using b by (simp_all add: pow2_def of_int_le_iff [symmetric] of_int_less_iff [symmetric]
        del: of_int_le_iff of_int_less_iff)
  have "pow2 (a - b - 1) * of_int q < pow2 (a - b - 1) * pow2 b"
    using qu pow2_pos [of "a - b - 1"] by (simp only: mult_less_cancel_left_pos)
  also have "\<dots> = pow2 (a - 1)"
    by (simp add: pow2_add [symmetric])
  finally have "pow2 (a - b - 1) * of_int q < of_int p"
    using pl by simp
  then have lo: "pow2 (a - b - 1) < x"
    using q by (simp add: x pos_less_divide_eq)
  have "rat_of_int p < pow2 a"
    by (rule pu)
  also have "\<dots> = pow2 (a - b + 1) * pow2 (b - 1)"
    by (simp add: pow2_add [symmetric])
  also have "\<dots> \<le> pow2 (a - b + 1) * of_int q"
    using ql pow2_pos [of "a - b + 1"] by (simp only: mult_le_cancel_left_pos)
  finally have hi: "x < pow2 (a - b + 1)"
    using q by (simp add: x pos_divide_less_eq)
  from lo hi show ?thesis
    by (simp add: a_def b_def)
qed

lemma ilog2_bounds:
  assumes "0 < x"
  shows "pow2 (ilog2 x) \<le> x \<and> x < pow2 (ilog2 x + 1)"
proof -
  obtain p q where pq: "quotient_of x = (p, q)"
    by (cases "quotient_of x")
  define d where "d = bitlen p - bitlen q"
  from quotient_bounds [OF assms pq] have b: "pow2 (d - 1) < x" "x < pow2 (d + 1)"
    by (simp_all add: d_def)
  have i: "ilog2 x = (if pow2 d \<le> x then d else d - 1)"
    by (simp add: ilog2_def pq d_def Let_def)
  show ?thesis
  proof (cases "pow2 d \<le> x")
    case True
    with b i show ?thesis by simp
  next
    case False
    with b i show ?thesis by simp
  qed
qed

lemma ilog2_eqI:
  assumes "pow2 k \<le> x" and "x < pow2 (k + 1)"
  shows "ilog2 x = k"
proof -
  from assms(1) pow2_pos [of k] have "0 < x" by simp
  from ilog2_bounds [OF this] have b: "pow2 (ilog2 x) \<le> x" "x < pow2 (ilog2 x + 1)"
    by simp_all
  from assms(1) b(2) have "pow2 k < pow2 (ilog2 x + 1)" by simp
  then have "k < ilog2 x + 1" by (rule pow2_less_cancel)
  moreover from b(1) assms(2) have "pow2 (ilog2 x) < pow2 (k + 1)" by simp
  then have "ilog2 x < k + 1" by (rule pow2_less_cancel)
  ultimately show ?thesis by simp
qed

text \<open>\<open>round_half_even x\<close> is an integer nearest to \<open>x\<close>, the even one of two.\<close>

lemma round_half_even_int: "round_half_even (of_int j) = j"
  by (simp add: round_half_even_def)

lemma round_half_even_eqI:
  assumes "of_int m - 1 / 2 < x" and "x < of_int m + 1 / 2"
  shows "round_half_even x = m"
proof -
  have "m - 1 \<le> \<lfloor>x\<rfloor>"
    using assms(1) by (simp add: le_floor_iff)
  moreover have "\<lfloor>x\<rfloor> \<le> m"
    using assms(2) by (simp add: floor_le_iff)
  ultimately consider "\<lfloor>x\<rfloor> = m" | "\<lfloor>x\<rfloor> = m - 1"
    by linarith
  then show ?thesis
  proof cases
    case 1
    with assms show ?thesis
      by (simp add: round_half_even_def Let_def)
  next
    case 2
    with assms show ?thesis
      by (simp add: round_half_even_def Let_def)
  qed
qed

lemma round_half_even_tie:
  assumes "x = of_int f + 1 / 2"
  shows "round_half_even x = (if even f then f else f + 1)"
proof -
  have "\<lfloor>x\<rfloor> = f"
    unfolding assms by (simp add: floor_eq_iff)
  then show ?thesis
    by (simp add: round_half_even_def Let_def assms)
qed

lemma round_half_even_near: "\<bar>of_int (round_half_even x) - x\<bar> \<le> 1 / 2"
proof -
  define f where "f = \<lfloor>x\<rfloor>"
  define r where "r = x - of_int f"
  have r: "0 \<le> r" "r < 1"
    unfolding r_def f_def by linarith+
  have v: "round_half_even x =
             (if r < 1 / 2 then f else if 1 / 2 < r then f + 1 else if even f then f else f + 1)"
    unfolding round_half_even_def Let_def r_def f_def by (rule refl)
  have d: "of_int (round_half_even x) - x = of_int (round_half_even x - f) - r"
    by (simp add: r_def)
  show ?thesis
  proof (cases "r < 1 / 2")
    case True
    then have "round_half_even x - f = 0"
      by (simp add: v)
    with r True show ?thesis
      unfolding d by simp
  next
    case False
    then have h: "1 / 2 \<le> r" by simp
    show ?thesis
    proof (cases "1 / 2 < r")
      case True
      then have "round_half_even x - f = 1"
        by (simp add: v)
      with r True show ?thesis
        unfolding d by simp
    next
      case False
      with h have e: "r = 1 / 2" by simp
      then have "round_half_even x - f = 0 \<or> round_half_even x - f = 1"
        by (simp add: v)
      then show ?thesis
        unfolding d e by auto
    qed
  qed
qed

text \<open>
  The value of \<open>to_double\<close> from the binade of the argument and its rounded significand,
  away from a tie and at a tie.
\<close>

lemma to_double_eqI:
  assumes "pow2 k \<le> \<bar>x\<bar>" and "\<bar>x\<bar> < pow2 (k + 1)"
    and "e = max (- 1074) (k - 52)"
    and "round_half_even (\<bar>x\<bar> / pow2 e) = m"
    and "m \<noteq> 0" and "of_int m * pow2 e < 2 ^ 1024"
  shows "to_double x = Fin (sgn x * (of_int m * pow2 e))"
proof -
  from assms(1) pow2_pos [of k] have "x \<noteq> 0" by auto
  moreover have "ilog2 \<bar>x\<bar> = k"
    using assms(1,2) by (rule ilog2_eqI)
  ultimately show ?thesis
    using assms(3-6) by (simp add: to_double_def Let_def)
qed

lemma to_double_nearI:
  assumes "pow2 k \<le> \<bar>x\<bar>" and "\<bar>x\<bar> < pow2 (k + 1)"
    and "e = max (- 1074) (k - 52)"
    and "of_int m - 1 / 2 < \<bar>x\<bar> / pow2 e" and "\<bar>x\<bar> / pow2 e < of_int m + 1 / 2"
    and "m \<noteq> 0" and "of_int m * pow2 e < 2 ^ 1024"
  shows "to_double x = Fin (sgn x * (of_int m * pow2 e))"
  using assms(1-3) round_half_even_eqI [OF assms(4,5)] assms(6,7) by (rule to_double_eqI)

lemma to_double_tieI:
  assumes "pow2 k \<le> \<bar>x\<bar>" and "\<bar>x\<bar> < pow2 (k + 1)"
    and "e = max (- 1074) (k - 52)"
    and "\<bar>x\<bar> / pow2 e = of_int f + 1 / 2"
    and "m = (if even f then f else f + 1)"
    and "m \<noteq> 0" and "of_int m * pow2 e < 2 ^ 1024"
  shows "to_double x = Fin (sgn x * (of_int m * pow2 e))"
  using assms(1-3) _ assms(6,7)
proof (rule to_double_eqI)
  show "round_half_even (\<bar>x\<bar> / pow2 e) = m"
    using round_half_even_tie [OF assms(4)] assms(5) by simp
qed

text \<open>
  A finite result of \<open>to_double\<close> is a double: a significand of at most 53 bits times a
  power of two in the range of the format. It lies within half a unit in the last place
  of the argument, which is a relative error of at most \<open>2 ^ -53\<close> above the subnormal
  range.
\<close>

lemma to_double_rounds:
  assumes "to_double x = Fin y" and "x \<noteq> 0"
  shows "\<exists>m e. y = sgn x * (of_int m * pow2 e) \<and> 0 \<le> m \<and> m \<le> 2 ^ 53
           \<and> - 1074 \<le> e \<and> e \<le> 971
           \<and> \<bar>y - x\<bar> \<le> pow2 e / 2
           \<and> (e = - 1074 \<or> pow2 (e + 52) \<le> \<bar>x\<bar>)"
proof -
  define k where "k = ilog2 \<bar>x\<bar>"
  define e where "e = max (- 1074) (k - 52)"
  define t where "t = \<bar>x\<bar> / pow2 e"
  define m where "m = round_half_even t"
  from assms(2) have "0 < \<bar>x\<bar>" by simp
  from ilog2_bounds [OF this] have kb: "pow2 k \<le> \<bar>x\<bar>" "\<bar>x\<bar> < pow2 (k + 1)"
    by (simp_all add: k_def)
  have near: "\<bar>of_int m - t\<bar> \<le> 1 / 2"
    unfolding m_def by (rule round_half_even_near)
  have tx: "t * pow2 e = \<bar>x\<bar>"
    using pow2_pos [of e] by (simp add: t_def)
  have t0: "0 \<le> t"
    using pow2_pos [of e] by (simp add: t_def)
  have "k + 1 \<le> e + 53"
    by (simp add: e_def)
  then have "pow2 (k + 1) \<le> pow2 (e + 53)"
    by (rule pow2_mono)
  with kb(2) have "\<bar>x\<bar> < pow2 53 * pow2 e"
    by (simp add: pow2_add [symmetric] add.commute)
  then have "t < pow2 53"
    using pow2_pos [of e] by (simp add: t_def pos_divide_less_eq)
  then have "t < 2 ^ 53"
    using pow2_nat [of 53] by simp
  with near have "rat_of_int m < 2 ^ 53 + 1"
    by linarith
  then have "rat_of_int m < of_int (2 ^ 53 + 1)"
    by simp
  then have m_hi: "m \<le> 2 ^ 53"
    unfolding of_int_less_iff by simp
  from near t0 have "- 1 < rat_of_int m"
    by linarith
  then have "rat_of_int (- 1) < rat_of_int m"
    by simp
  then have m_lo: "0 \<le> m"
    unfolding of_int_less_iff by simp
  have unfolded: "to_double x =
      (if m = 0 then (if x < 0 then NegZero else Fin 0)
       else if 2 ^ 1024 \<le> of_int m * pow2 e then (if x < 0 then NegInf else PosInf)
       else Fin (sgn x * (of_int m * pow2 e)))"
    using assms(2) by (simp add: to_double_def Let_def m_def t_def e_def k_def)
  have y: "y = sgn x * (of_int m * pow2 e)"
    using assms(1) unfolding unfolded by (auto split: if_splits)
  have fin: "m \<noteq> 0 \<Longrightarrow> of_int m * pow2 e < 2 ^ 1024"
    using assms(1) unfolding unfolded by (auto split: if_splits)
  have e_hi: "e \<le> 971"
  proof (rule ccontr)
    assume "\<not> e \<le> 971"
    then have big: "972 \<le> e" and ek: "e = k - 52"
      by (simp_all add: e_def)
    from ek have "pow2 k = pow2 52 * pow2 e"
      by (simp add: pow2_add [symmetric])
    with kb(1) have "pow2 52 \<le> t"
      using pow2_pos [of e] by (simp add: t_def pos_le_divide_eq)
    then have "2 ^ 52 \<le> t"
      using pow2_nat [of 52] by simp
    with near have "2 ^ 52 - 1 < rat_of_int m"
      by linarith
    then have "rat_of_int (2 ^ 52 - 1) < rat_of_int m"
      by simp
    then have m52: "2 ^ 52 \<le> m"
      unfolding of_int_less_iff by simp
    then have "m \<noteq> 0"
      by auto
    from big have "pow2 972 \<le> pow2 e"
      by (rule pow2_mono)
    moreover from m52 have "(2::rat) ^ 52 \<le> of_int m"
      by (metis of_int_le_iff of_int_numeral of_int_power)
    ultimately have "2 ^ 52 * pow2 972 \<le> of_int m * pow2 e"
      using pow2_pos [of 972] by (intro mult_mono) simp_all
    moreover have "(2::rat) ^ 52 * pow2 972 = 2 ^ 1024"
      using pow2_nat [of 972] by (simp add: power_add [symmetric])
    ultimately show False
      using fin [OF \<open>m \<noteq> 0\<close>] by simp
  qed
  have "\<bar>y - x\<bar> = \<bar>of_int m * pow2 e - \<bar>x\<bar>\<bar>"
    unfolding y using assms(2) by (cases "x < 0") (simp_all add: sgn_if)
  also have "\<dots> = \<bar>of_int m - t\<bar> * pow2 e"
    using pow2_pos [of e] by (simp add: tx [symmetric] left_diff_distrib [symmetric] abs_mult)
  also have "\<dots> \<le> 1 / 2 * pow2 e"
    using near pow2_pos [of e] by (intro mult_right_mono) simp_all
  finally have err: "\<bar>y - x\<bar> \<le> pow2 e / 2"
    by simp
  have "e = - 1074 \<or> pow2 (e + 52) \<le> \<bar>x\<bar>"
  proof (cases "e = - 1074")
    case False
    then have "e + 52 = k"
      by (simp add: e_def max_def split: if_splits)
    with kb(1) show ?thesis
      by simp
  qed simp
  moreover have "- 1074 \<le> e"
    by (simp add: e_def)
  ultimately show ?thesis
    using y m_lo m_hi e_hi err by blast
qed

text \<open>A double is rounded to itself; so is an integer below \<open>2 ^ 53\<close> in magnitude.\<close>

lemma to_double_exact:
  assumes "m \<noteq> 0" and "\<bar>m\<bar> < 2 ^ 53" and "- 1074 \<le> e" and "e \<le> 971"
  shows "to_double (of_int m * pow2 e) = Fin (of_int m * pow2 e)"
proof -
  define x where "x = rat_of_int m * pow2 e"
  define k where "k = ilog2 \<bar>x\<bar>"
  define e' where "e' = max (- 1074) (k - 52)"
  define n where "n = nat (e - e')"
  have ax: "\<bar>x\<bar> = of_int \<bar>m\<bar> * pow2 e"
    using pow2_pos [of e] by (simp add: x_def abs_mult)
  from assms(1) have "0 < \<bar>x\<bar>"
    using pow2_pos [of e] by (simp add: x_def)
  from ilog2_bounds [OF this] have kb: "pow2 k \<le> \<bar>x\<bar>" "\<bar>x\<bar> < pow2 (k + 1)"
    by (simp_all add: k_def)
  from assms(2) have "rat_of_int \<bar>m\<bar> < 2 ^ 53"
    by (metis of_int_less_iff of_int_numeral of_int_power)
  then have "rat_of_int \<bar>m\<bar> < pow2 53"
    using pow2_nat [of 53] by simp
  then have "\<bar>x\<bar> < pow2 53 * pow2 e"
    unfolding ax using pow2_pos [of e] by (simp only: mult_less_cancel_right_pos)
  then have hi: "\<bar>x\<bar> < pow2 (e + 53)"
    by (simp add: pow2_add [symmetric] add.commute)
  with kb(1) have "pow2 k < pow2 (e + 53)"
    by simp
  then have "k < e + 53"
    by (rule pow2_less_cancel)
  with assms(3) have le: "e' \<le> e"
    by (simp add: e'_def)
  then have "e = e' + int n"
    by (simp add: n_def)
  then have pe: "pow2 e = pow2 e' * 2 ^ n"
    by (simp add: pow2_add pow2_nat)
  have q: "\<bar>x\<bar> / pow2 e' = of_int (\<bar>m\<bar> * 2 ^ n)"
    using pow2_pos [of e'] by (simp add: ax pe)
  have r: "round_half_even (\<bar>x\<bar> / pow2 e') = \<bar>m\<bar> * 2 ^ n"
    unfolding q by (rule round_half_even_int)
  have v: "rat_of_int (\<bar>m\<bar> * 2 ^ n) * pow2 e' = \<bar>x\<bar>"
    by (simp add: ax pe)
  from assms(4) have "pow2 (e + 53) \<le> pow2 1024"
    by (intro pow2_mono) simp
  with hi have "\<bar>x\<bar> < pow2 1024"
    by simp
  then have small: "\<not> 2 ^ 1024 \<le> \<bar>x\<bar>"
    using pow2_nat [of 1024] by simp
  have nz: "\<bar>m\<bar> * 2 ^ n \<noteq> 0"
    using assms(1) by simp
  have "x \<noteq> 0"
    using \<open>0 < \<bar>x\<bar>\<close> by simp
  then have "to_double x = Fin (sgn x * \<bar>x\<bar>)"
    unfolding to_double_def Let_def k_def [symmetric] e'_def [symmetric] r v
    using nz small by simp
  moreover have "sgn x * \<bar>x\<bar> = x"
    by (simp add: sgn_if)
  ultimately show ?thesis
    by (simp add: x_def)
qed

lemma to_double_int:
  assumes "\<bar>k\<bar> < 2 ^ 53"
  shows "to_double (of_int k) = Fin (of_int k)"
proof (cases "k = 0")
  case True
  then show ?thesis by (simp add: to_double_def)
next
  case False
  with assms have "to_double (of_int k * pow2 0) = Fin (of_int k * pow2 0)"
    by (intro to_double_exact) simp_all
  then show ?thesis
    by (simp add: pow2_def)
qed

subsection \<open>Statistics\<close>

text \<open>
  The sum of integers is exact as long as every partial sum stays below \<open>2 ^ 53\<close> in
  magnitude.
\<close>

lemma foldl_plus_exact:
  "\<forall>i\<le>length ks. \<bar>acc + sum_list (take i ks)\<bar> < 2 ^ 53 \<Longrightarrow>
     foldl plus_num (Fin (of_int acc)) (map (\<lambda>k. Fin (of_int k)) ks)
       = Fin (of_int (acc + sum_list ks))"
proof (induction ks arbitrary: acc)
  case Nil
  show ?case by simp
next
  case (Cons k ks)
  from Cons.prems [rule_format, of 1] have "\<bar>acc + k\<bar> < 2 ^ 53"
    by simp
  then have step: "plus_num (Fin (of_int acc)) (Fin (of_int k)) = Fin (of_int (acc + k))"
    using to_double_int [of "acc + k"] by simp
  have "\<forall>i\<le>length ks. \<bar>(acc + k) + sum_list (take i ks)\<bar> < 2 ^ 53"
  proof (intro allI impI)
    fix i assume "i \<le> length ks"
    with Cons.prems [rule_format, of "Suc i"] show "\<bar>(acc + k) + sum_list (take i ks)\<bar> < 2 ^ 53"
      by (simp add: add.assoc)
  qed
  from Cons.IH [OF this] step show ?case
    by (simp add: add.assoc)
qed

lemma div_length_exact:
  assumes "\<bar>k\<bar> < 2 ^ 53" and "0 < n" and "int n dvd k"
  shows "div_length (Fin (of_int k)) n = Fin (of_int (k div int n))"
proof -
  from assms(3) obtain j where k: "k = int n * j" ..
  from assms(2) have q: "rat_of_int k / of_nat n = of_int (k div int n)"
    by (simp add: k)
  have "1 * \<bar>j\<bar> \<le> int n * \<bar>j\<bar>"
    using assms(2) by (intro mult_right_mono) simp_all
  with assms(2) have "\<bar>k div int n\<bar> \<le> \<bar>k\<bar>"
    by (simp add: k abs_mult)
  with assms(1) have "\<bar>k div int n\<bar> < 2 ^ 53"
    by simp
  then show ?thesis
    by (simp only: div_length.simps q to_double_int)
qed

text \<open>On finite numbers \<open>Math.min\<close> and \<open>Math.max\<close> are the least and the greatest.\<close>

lemma less_num_Fin: "less_num (Fin a) (Fin b) \<longleftrightarrow> a < b"
  by (simp add: less_num_def)

lemma min_step_Fin: "min_step (Fin m) (Fin x) = Fin (min m x)"
  by (auto simp add: min_step_def less_num_Fin min_def)

lemma max_step_Fin: "max_step (Fin m) (Fin x) = Fin (max m x)"
  by (auto simp add: max_step_def less_num_Fin max_def)

lemma foldl_min_step_Fin: "foldl min_step (Fin m) (map Fin xs) = Fin (Min (insert m (set xs)))"
proof (induction xs arbitrary: m)
  case Nil
  show ?case by simp
next
  case (Cons x xs)
  have "Min (insert (min m x) (set xs)) = Min (insert m (insert x (set xs)))"
    by (cases "set xs = {}") (simp_all add: min.assoc)
  then show ?case
    by (simp add: min_step_Fin Cons.IH)
qed

lemma foldl_max_step_Fin: "foldl max_step (Fin m) (map Fin xs) = Fin (Max (insert m (set xs)))"
proof (induction xs arbitrary: m)
  case Nil
  show ?case by simp
next
  case (Cons x xs)
  have "Max (insert (max m x) (set xs)) = Max (insert m (insert x (set xs)))"
    by (cases "set xs = {}") (simp_all add: max.assoc)
  then show ?case
    by (simp add: max_step_Fin Cons.IH)
qed

lemma math_min_Fin: "xs \<noteq> [] \<Longrightarrow> math_min (map Fin xs) = Fin (Min (set xs))"
proof (cases xs)
  case Nil
  assume "xs \<noteq> []" with Nil show ?thesis by simp
next
  case (Cons x ys)
  have "NaN \<notin> set (map Fin xs)" by auto
  moreover have "min_step PosInf (Fin x) = Fin x"
    by (simp add: min_step_def less_num_def)
  ultimately show ?thesis
    unfolding math_min_def Cons by (simp add: foldl_min_step_Fin)
qed

lemma math_max_Fin: "xs \<noteq> [] \<Longrightarrow> math_max (map Fin xs) = Fin (Max (set xs))"
proof (cases xs)
  case Nil
  assume "xs \<noteq> []" with Nil show ?thesis by simp
next
  case (Cons x ys)
  have "NaN \<notin> set (map Fin xs)" by auto
  moreover have "max_step NegInf (Fin x) = Fin x"
    by (simp add: max_step_def less_num_def)
  ultimately show ?thesis
    unfolding math_max_def Cons by (simp add: foldl_max_step_Fin)
qed

lemma calculateStats_finite:
  assumes "xs \<noteq> []" and "length xs \<le> max_args"
  shows "calculateStats max_args (map Fin xs) =
           Inr \<lparr>s_sum = foldl plus_num (Fin 0) (map Fin xs),
                s_avg = div_length (foldl plus_num (Fin 0) (map Fin xs)) (length xs),
                s_min = Fin (Min (set xs)),
                s_max = Fin (Max (set xs)),
                s_count = length xs\<rparr>"
  using assms by (simp add: calculateStats_def Let_def math_min_Fin math_max_Fin)

text \<open>
  C9. \<open>calculateStats\<close> of the empty list is the all-zero record, and a list longer than
  the engine spreads into one call raises \<open>RangeError\<close>. Of a non-empty list of finite
  numbers that is not too long it returns the sum accumulated from left to right, every
  addition rounded to a double, that sum divided by the length and rounded, the least and
  the greatest element, and the length. The sum is the exact one when the numbers are
  integers whose partial sums stay below \<open>2 ^ 53\<close> in magnitude, and then the average is
  the exact one when the length divides the sum: \<open>calculateStats [10, 20, 30]\<close> is
  \<open>{sum: 60, avg: 20, min: 10, max: 30, count: 3}\<close>.
\<close>

theorem calculateStats_correct:
  "calculateStats max_args [] =
     Inr \<lparr>s_sum = Fin 0, s_avg = Fin 0, s_min = Fin 0, s_max = Fin 0, s_count = 0\<rparr>
   \<and> (max_args < length numbers \<longrightarrow> calculateStats max_args numbers = Inl RangeError)
   \<and> (xs \<noteq> [] \<and> length xs \<le> max_args \<longrightarrow>
        calculateStats max_args (map Fin xs) =
          Inr \<lparr>s_sum = foldl plus_num (Fin 0) (map Fin xs),
               s_avg = div_length (foldl plus_num (Fin 0) (map Fin xs)) (length xs),
               s_min = Fin (Min (set xs)),
               s_max = Fin (Max (set xs)),
               s_count = length xs\<rparr>)
   \<and> (ks \<noteq> [] \<and> length ks \<le> max_args
        \<and> (\<forall>i\<le>length ks. \<bar>sum_list (take i ks)\<bar> < 2 ^ 53) \<longrightarrow>
        calculateStats max_args (map (\<lambda>k. Fin (of_int k)) ks) =
          Inr \<lparr>s_sum = Fin (of_int (sum_list ks)),
               s_avg = to_double (of_int (sum_list ks) / of_nat (length ks)),
               s_min = Fin (of_int (Min (set ks))),
               s_max = Fin (of_int (Max (set ks))),
               s_count = length ks\<rparr>
        \<and> (int (length ks) dvd sum_list ks \<longrightarrow>
             to_double (of_int (sum_list ks) / of_nat (length ks))
               = Fin (of_int (sum_list ks div int (length ks)))))
   \<and> (3 \<le> max_args \<longrightarrow>
        calculateStats max_args [Fin 10, Fin 20, Fin 30] =
          Inr \<lparr>s_sum = Fin 60, s_avg = Fin 20, s_min = Fin 10, s_max = Fin 30, s_count = 3\<rparr>)"
proof (intro conjI impI)
  show "calculateStats max_args [] =
     Inr \<lparr>s_sum = Fin 0, s_avg = Fin 0, s_min = Fin 0, s_max = Fin 0, s_count = 0\<rparr>"
    by (simp add: calculateStats_def)
next
  assume "max_args < length numbers"
  then show "calculateStats max_args numbers = Inl RangeError"
    by (auto simp add: calculateStats_def Let_def)
next
  assume "xs \<noteq> [] \<and> length xs \<le> max_args"
  then show "calculateStats max_args (map Fin xs) =
          Inr \<lparr>s_sum = foldl plus_num (Fin 0) (map Fin xs),
               s_avg = div_length (foldl plus_num (Fin 0) (map Fin xs)) (length xs),
               s_min = Fin (Min (set xs)),
               s_max = Fin (Max (set xs)),
               s_count = length xs\<rparr>"
    by (simp add: calculateStats_finite)
next
  assume a: "ks \<noteq> [] \<and> length ks \<le> max_args
        \<and> (\<forall>i\<le>length ks. \<bar>sum_list (take i ks)\<bar> < 2 ^ 53)"
  have m: "map (\<lambda>k. Fin (of_int k)) ks = map Fin (map of_int ks)"
    by simp
  from a have "\<forall>i\<le>length ks. \<bar>0 + sum_list (take i ks)\<bar> < 2 ^ 53"
    by simp
  then have "foldl plus_num (Fin (of_int 0)) (map (\<lambda>k. Fin (of_int k)) ks)
               = Fin (of_int (0 + sum_list ks))"
    by (rule foldl_plus_exact)
  then have s: "foldl plus_num (Fin 0) (map Fin (map of_int ks)) = Fin (of_int (sum_list ks))"
    by (simp add: comp_def)
  have mn: "Min (set (map rat_of_int ks)) = of_int (Min (set ks))"
    using a by (simp add: mono_Min_commute [symmetric] mono_def)
  have mx: "Max (set (map rat_of_int ks)) = of_int (Max (set ks))"
    using a by (simp add: mono_Max_commute [symmetric] mono_def)
  from a have "calculateStats max_args (map Fin (map of_int ks)) =
           Inr \<lparr>s_sum = foldl plus_num (Fin 0) (map Fin (map of_int ks)),
                s_avg = div_length (foldl plus_num (Fin 0) (map Fin (map of_int ks)))
                          (length (map rat_of_int ks)),
                s_min = Fin (Min (set (map rat_of_int ks))),
                s_max = Fin (Max (set (map rat_of_int ks))),
                s_count = length (map rat_of_int ks)\<rparr>"
    by (intro calculateStats_finite) simp_all
  then show "calculateStats max_args (map (\<lambda>k. Fin (of_int k)) ks) =
          Inr \<lparr>s_sum = Fin (of_int (sum_list ks)),
               s_avg = to_double (of_int (sum_list ks) / of_nat (length ks)),
               s_min = Fin (of_int (Min (set ks))),
               s_max = Fin (of_int (Max (set ks))),
               s_count = length ks\<rparr>"
    unfolding m s mn mx by simp
next
  assume a: "ks \<noteq> [] \<and> length ks \<le> max_args
        \<and> (\<forall>i\<le>length ks. \<bar>sum_list (take i ks)\<bar> < 2 ^ 53)"
  assume d: "int (length ks) dvd sum_list ks"
  from a have "\<bar>sum_list (take (length ks) ks)\<bar> < 2 ^ 53"
    by blast
  then have "\<bar>sum_list ks\<bar> < 2 ^ 53"
    by simp
  moreover from a have "0 < length ks"
    by simp
  ultimately have "div_length (Fin (of_int (sum_list ks))) (length ks)
                     = Fin (of_int (sum_list ks div int (length ks)))"
    using d by (rule div_length_exact)
  then show "to_double (of_int (sum_list ks) / of_nat (length ks))
               = Fin (of_int (sum_list ks div int (length ks)))"
    by simp
next
  assume "3 \<le> max_args"
  have t: "to_double 10 = Fin 10" "to_double 30 = Fin 30" "to_double 60 = Fin 60"
      "to_double 20 = Fin 20"
    using to_double_int [of 10] to_double_int [of 30] to_double_int [of 60]
      to_double_int [of 20] by simp_all
  have "NaN \<notin> set [Fin 10, Fin 20, Fin 30]"
    by simp
  with \<open>3 \<le> max_args\<close> show "calculateStats max_args [Fin 10, Fin 20, Fin 30] =
          Inr \<lparr>s_sum = Fin 60, s_avg = Fin 20, s_min = Fin 10, s_max = Fin 30, s_count = 3\<rparr>"
    by (simp add: calculateStats_def Let_def t math_min_def math_max_def min_step_def
        max_step_def less_num_def)
qed

theorem calculateStats_correct_witness:
  "calculateStats 3 [Fin 1, Fin 2, Fin 3, Fin 4] = Inl RangeError
   \<and> calculateStats 3 (map Fin [3 / 2, 1 / 4]) =
       Inr \<lparr>s_sum = Fin (7 / 4), s_avg = Fin (7 / 8), s_min = Fin (1 / 4), s_max = Fin (3 / 2),
            s_count = 2\<rparr>
   \<and> calculateStats 3 (map (\<lambda>k. Fin (of_int k)) [4, - 1, 6]) =
       Inr \<lparr>s_sum = Fin 9, s_avg = Fin 3, s_min = Fin (- 1), s_max = Fin 6, s_count = 3\<rparr>
   \<and> calculateStats 3 [Fin 10, Fin 20, Fin 30] =
       Inr \<lparr>s_sum = Fin 60, s_avg = Fin 20, s_min = Fin 10, s_max = Fin 30, s_count = 3\<rparr>"
proof -
  have t: "to_double (3 / 2) = Fin (3 / 2)" "to_double (7 / 4) = Fin (7 / 4)"
      "to_double (7 / 8) = Fin (7 / 8)"
    using to_double_exact [of 3 "- 1"] to_double_exact [of 7 "- 2"] to_double_exact [of 7 "- 3"]
    by (simp_all add: pow2_def)
  have b: "\<forall>i\<le>length [4, - 1, 6 :: int]. \<bar>sum_list (take i [4, - 1, 6 :: int])\<bar> < 2 ^ 53"
    by (auto simp add: le_Suc_eq)
  show ?thesis
    using calculateStats_correct [where max_args = 3 and numbers = "[Fin 1, Fin 2, Fin 3, Fin 4]"
        and xs = "[3 / 2, 1 / 4]" and ks = "[4, - 1, 6]"] t b
    by simp
qed

text \<open>
  C9 requires the exact sum and mean of every non-empty list. The literals \<^verbatim>\<open>0.1\<close> and
  \<^verbatim>\<open>0.2\<close> denote the doubles nearest to \<open>1/10\<close> and \<open>1/5\<close>; their exact sum lies
  halfway between two doubles and is rounded to the upper one, which is the double of
  \<^verbatim>\<open>0.30000000000000004\<close>. So \<open>calculateStats [0.1, 0.2]\<close> has a sum that is not
  the sum of its two elements, and an average that is not their mean.
\<close>

theorem calculateStats_rounds_counterexample:
  "to_double (1 / 10) = Fin (3602879701896397 / 2 ^ 55)
   \<and> to_double (1 / 5) = Fin (3602879701896397 / 2 ^ 54)
   \<and> calculateStats 2 [Fin (3602879701896397 / 2 ^ 55), Fin (3602879701896397 / 2 ^ 54)] =
       Inr \<lparr>s_sum = Fin (1351079888211149 / 2 ^ 52),
            s_avg = Fin (1351079888211149 / 2 ^ 53),
            s_min = Fin (3602879701896397 / 2 ^ 55),
            s_max = Fin (3602879701896397 / 2 ^ 54),
            s_count = 2\<rparr>
   \<and> (1351079888211149 / 2 ^ 52 :: rat) \<noteq> 3602879701896397 / 2 ^ 55 + 3602879701896397 / 2 ^ 54
   \<and> (1351079888211149 / 2 ^ 53 :: rat)
       \<noteq> (3602879701896397 / 2 ^ 55 + 3602879701896397 / 2 ^ 54) / 2
   \<and> to_double (30000000000000004 / 10 ^ 17) = Fin (1351079888211149 / 2 ^ 52)"
proof -
  have t1: "to_double (1 / 10) = Fin (sgn (1 / 10) * (of_int 7205759403792794 * pow2 (- 56)))"
    by (rule to_double_nearI [where k = "- 4"]) (simp_all add: pow2_def)
  have t2: "to_double (1 / 5) = Fin (sgn (1 / 5) * (of_int 7205759403792794 * pow2 (- 55)))"
    by (rule to_double_nearI [where k = "- 3"]) (simp_all add: pow2_def)
  have t3: "to_double (3602879701896397 / 2 ^ 55 + 3602879701896397 / 2 ^ 54)
          = Fin (sgn (3602879701896397 / 2 ^ 55 + 3602879701896397 / 2 ^ 54)
                 * (of_int 5404319552844596 * pow2 (- 54)))"
    by (rule to_double_tieI [where k = "- 2" and f = 5404319552844595]) (simp_all add: pow2_def)
  have t4: "to_double (30000000000000004 / 10 ^ 17)
          = Fin (sgn (30000000000000004 / 10 ^ 17) * (of_int 5404319552844596 * pow2 (- 54)))"
    by (rule to_double_nearI [where k = "- 2"]) (simp_all add: pow2_def)
  note t5 = to_double_exact [of 3602879701896397 "- 55"]
    to_double_exact [of 3602879701896397 "- 54"] to_double_exact [of 1351079888211149 "- 53"]
  show ?thesis
    using t1 t2 t3 t4 t5
    by (simp add: pow2_def calculateStats_def Let_def math_min_def math_max_def min_step_def
        max_step_def less_num_def)
qed

subsection \<open>Totals per category\<close>








subsection \<open>Sorting\<close>

text \<open>
  The comparison function of \<open>sortBy\<close> never answers 0: of two records with the same
  key it says, whichever comes first, that the first argument sorts before the second.
\<close>

lemma sortBy_cmp_nonzero: "sortBy_cmp prop ord a b \<noteq> 0"
  by (simp add: sortBy_cmp_def Let_def)

lemma sortBy_cmp_tie:
  "prop_val prop a = prop_val prop b \<Longrightarrow>
     sortBy_cmp prop ord a b = - 1 \<and> sortBy_cmp prop ord b a = - 1"
  by (simp add: sortBy_cmp_def Let_def)

text \<open>
  C8 requires that records with equal sort keys keep their relative order. Two records
  of amount 5, sorted by \<^verbatim>\<open>amount-desc\<close> under an otherwise empty filter: the
  comparison function answers \<open>-1\<close> for the pair in both argument orders, and the
  insertion procedure driven by it returns the two records swapped.
\<close>

theorem sortBy_ties_reversed:
  "sortBy_cmp PAmount Desc
      \<lparr>ident = ''a'', amount = 5, category = ''food'', description = ''lunch'', date = 1\<rparr>
      \<lparr>ident = ''b'', amount = 5, category = ''food'', description = ''dinner'', date = 2\<rparr> = - 1
   \<and> sortBy_cmp PAmount Desc
      \<lparr>ident = ''b'', amount = 5, category = ''food'', description = ''dinner'', date = 2\<rparr>
      \<lparr>ident = ''a'', amount = 5, category = ''food'', description = ''lunch'', date = 1\<rparr> = - 1
   \<and> applyFilters (\<lambda>r. (0, 0))
      [\<lparr>ident = ''a'', amount = 5, category = ''food'', description = ''lunch'', date = 1\<rparr>,
       \<lparr>ident = ''b'', amount = 5, category = ''food'', description = ''dinner'', date = 2\<rparr>]
      \<lparr>searchQuery = '''', f_category = ''all'', dateRange = ''all'',
       f_sortBy = Some (PAmount, Desc)\<rparr>
     = [\<lparr>ident = ''b'', amount = 5, category = ''food'', description = ''dinner'', date = 2\<rparr>,
        \<lparr>ident = ''a'', amount = 5, category = ''food'', description = ''lunch'', date = 1\<rparr>]"
  by (simp add: sortBy_cmp_def applyFilters_def sortBy_def array_sort_def)

section \<open>Properties of the store\<close>

subsection \<open>Runs of callbacks\<close>

lemma forEach_prefix: "prefix (fst (forEach throws cs)) cs"
  by (induction cs) (auto split: prod.splits)

lemma forEach_Returned: "snd (forEach throws cs) = Returned \<Longrightarrow> fst (forEach throws cs) = cs"
  by (induction cs) (auto split: prod.splits if_splits)

lemma forEach_no_throw: "\<forall>e\<in>set cs. \<not> throws e \<Longrightarrow> forEach throws cs = (cs, Returned)"
  by (induction cs) auto

lemma notify_registered:
  "notify throws s k call = forEach throws (map call (registered s k))"
  by (simp add: notify_def registered_def split: option.splits)

lemma runs_forEach: "runs (forEach throws cs) cs"
  by (simp add: runs_def forEach_prefix forEach_Returned)

lemma runs_and_then: "runs a xs \<Longrightarrow> runs b ys \<Longrightarrow> runs (and_then a b) (xs @ ys)"
  by (cases a; cases b) (auto simp: runs_def and_then_def split: completion.splits)

lemma and_then_no_throw:
  "a = (xs, Returned) \<Longrightarrow> b = (ys, Returned) \<Longrightarrow> and_then a b = (xs @ ys, Returned)"
  by (simp add: and_then_def)

subsection \<open>setState\<close>

text \<open>
  C1. \<open>setState\<close> assigns the new value and leaves listeners and middlewares as they
  were. Its calls are, in this order: every middleware in registration order with the
  key, the value of the key before the assignment, the new value and the state after the
  assignment; every listener of the key in registration order with the new and the old
  value; every listener of \<^verbatim>\<open>'*'\<close> in registration order with the state after the
  assignment and the key. The calls made are always a prefix of that list; they are the
  whole list when the method returns, and it returns when no callback throws.
\<close>

theorem setState_effects_in_order:
  "case setState throws key val s of (s', trace, r) \<Rightarrow>
     state s' = AList.update key val (state s)
     \<and> listeners s' = listeners s \<and> middlewares s' = middlewares s
     \<and> (let oldValue = get_prop (state s) key;
             calls = map (\<lambda>m. Middleware m key oldValue val (state s')) (middlewares s)
                   @ map (\<lambda>c. Listener c val oldValue) (registered s key)
                   @ map (\<lambda>c. Global c (state s') (Key key)) (registered s ''*'')
         in prefix trace calls
            \<and> (r = Returned \<longrightarrow> trace = calls)
            \<and> ((\<forall>e\<in>set calls. \<not> throws e) \<longrightarrow> r = Returned \<and> trace = calls))"
proof -
  define s' where "s' = s\<lparr>state := AList.update key val (state s)\<rparr>"
  define old where "old = get_prop (state s) key"
  define ms where "ms = map (\<lambda>m. Middleware m key old val (state s')) (middlewares s)"
  define ls where "ls = map (\<lambda>c. Listener c val old) (registered s key)"
  define gs where "gs = map (\<lambda>c. Global c (state s') (Key key)) (registered s ''*'')"
  define res where "res = and_then (forEach throws ms) (and_then (forEach throws ls) (forEach throws gs))"
  have reg: "registered s' k = registered s k" for k
    by (simp add: s'_def registered_def)
  have eq: "setState throws key val s = (s', res)"
    by (simp add: setState_def Let_def notify_registered reg res_def ms_def ls_def gs_def
        s'_def [symmetric] old_def [symmetric]) (simp add: s'_def)
  have r: "runs res (ms @ ls @ gs)"
    unfolding res_def by (intro runs_and_then runs_forEach)
  have n: "res = (ms @ ls @ gs, Returned)" if "\<forall>e\<in>set (ms @ ls @ gs). \<not> throws e"
    unfolding res_def using that by (intro and_then_no_throw forEach_no_throw) auto
  show ?thesis
    unfolding eq using r n
    by (cases res) (auto simp: runs_def Let_def s'_def old_def ms_def ls_def gs_def)
qed

theorem setState_effects_in_order_witness:
  "setState (\<lambda>e. False) ''a'' (Num 2)
     \<lparr>state = [(''a'', Num 1)],
      listeners = [''a'' \<mapsto> [3, 4], ''*'' \<mapsto> [5]],
      middlewares = [1, 2]\<rparr>
   = (\<lparr>state = [(''a'', Num 2)],
       listeners = [''a'' \<mapsto> [3, 4], ''*'' \<mapsto> [5]],
       middlewares = [1, 2]\<rparr>,
      [Middleware 1 ''a'' (Num 1) (Num 2) [(''a'', Num 2)],
       Middleware 2 ''a'' (Num 1) (Num 2) [(''a'', Num 2)],
       Listener 3 (Num 2) (Num 1),
       Listener 4 (Num 2) (Num 1),
       Global 5 [(''a'', Num 2)] (Key ''a'')],
      Returned)"
  using setState_effects_in_order [where throws = "\<lambda>e. False" and key = "''a''" and val = "Num 2"
     and s = "\<lparr>state = [(''a'', Num 1)], listeners = [''a'' \<mapsto> [3, 4], ''*'' \<mapsto> [5]],
       middlewares = [1, 2]\<rparr>"]
  by (auto simp: registered_def get_prop_def Let_def split: prod.splits)

text \<open>
  An exception of a callback is not caught: when the first middleware throws, no other
  callback is called, and the new value stays assigned.
\<close>

lemma setState_middleware_throws:
  "setState (\<lambda>e. case e of Middleware m key old new st \<Rightarrow> m = 1 | _ \<Rightarrow> False) ''a'' (Num 2)
     \<lparr>state = [(''a'', Num 1)], listeners = [''a'' \<mapsto> [3]], middlewares = [1, 2]\<rparr>
   = (\<lparr>state = [(''a'', Num 2)], listeners = [''a'' \<mapsto> [3]], middlewares = [1, 2]\<rparr>,
      [Middleware 1 ''a'' (Num 1) (Num 2) [(''a'', Num 2)]], Thrown)"
  by (simp add: setState_def Let_def get_prop_def and_then_def)

subsection \<open>The registry\<close>

lemma registered_subscribe:
  "registered (fst (subscribe key cb s)) k =
     (if k = key then set_add cb (registered s key) else registered s k)"
  by (auto simp: subscribe_def registered_def Let_def split: option.splits)

lemma distinct_set_add: "distinct xs \<Longrightarrow> distinct (set_add x xs)"
  by (simp add: set_add_def)

lemma registered_dispose:
  "dispose (Disposer key cb) s = Inr s' \<Longrightarrow>
     registered s' k = (if k = key then set_delete cb (registered s key) else registered s k)"
  by (auto simp: registered_def split: option.splits)

lemma registered_setState: "registered (fst (setState throws key val s)) k = registered s k"
  by (simp add: setState_def registered_def Let_def)

lemma registered_batchUpdate: "registered (fst (batchUpdate throws ups s)) k = registered s k"
  by (simp add: batchUpdate_def registered_def Let_def)

lemma registered_use: "registered (use m s) k = registered s k"
  by (simp add: use_def registered_def)

lemma store_inv_run_op: "store_inv s \<Longrightarrow> store_inv (run_op throws s op)"
proof (cases op)
  case (Dispose d)
  assume inv: "store_inv s"
  obtain key cb where d: "d = Disposer key cb" by (cases d)
  show ?thesis
  proof (cases "dispose d s")
    case (Inl e)
    with inv Dispose show ?thesis by simp
  next
    case (Inr s')
    with inv Dispose d show ?thesis
      by (simp add: store_inv_def registered_dispose [of key cb s s'] set_delete_def distinct_removeAll)
  qed
qed (simp_all add: store_inv_def registered_subscribe registered_setState registered_batchUpdate
      registered_use distinct_set_add)

lemma store_inv_run_ops: "store_inv s \<Longrightarrow> store_inv (run_ops throws s ops)"
  unfolding run_ops_def by (induction ops arbitrary: s) (simp_all add: store_inv_run_op)

lemma store_inv_new: "store_inv (new_Store init)"
  by (simp add: store_inv_def registered_def new_Store_def)

subsection \<open>batchUpdate\<close>

lemma map_of_foldl_update:
  "map_of (foldl (\<lambda>st (key, val). AList.update key val st) st ups) = map_of st ++ map_of (rev ups)"
proof (induction ups arbitrary: st)
  case Nil
  show ?case by simp
next
  case (Cons u ups)
  obtain k v where u: "u = (k, v)" by (cases u)
  show ?case
    by (rule ext) (simp add: u Cons.IH update_conv' map_add_def split: option.splits)
qed

lemma count_list_map_distinct:
  "inj f \<Longrightarrow> distinct xs \<Longrightarrow> x \<in> set xs \<Longrightarrow> count_list (map f xs) (f x) = 1"
  by (induction xs) (auto simp: inj_def count_list_0_iff)

text \<open>
  C3. In a store reached by any history from a new store, \<open>batchUpdate\<close> assigns
  every pair of the updates to the state (the last pair of a key wins) and leaves
  listeners and middlewares as they were. It calls no middleware and no listener of a
  key. Its calls are a prefix of the list of calls to the listeners of \<^verbatim>\<open>'*'\<close>, each
  with the state after all assignments and the list of the keys of the updates; that
  list holds every listener of \<^verbatim>\<open>'*'\<close> exactly once, and the calls made are the whole
  list when no callback throws.
\<close>

theorem batchUpdate_notifies_once:
  "s = run_ops throws0 (new_Store init) ops \<Longrightarrow>
   (case batchUpdate throws updates s of (s', trace, r) \<Rightarrow>
     map_of (state s') = map_of (state s) ++ map_of (rev updates)
     \<and> listeners s' = listeners s \<and> middlewares s' = middlewares s
     \<and> (let calls = map (\<lambda>c. Global c (state s') (Keys (map fst updates))) (registered s ''*'')
         in prefix trace calls
            \<and> (r = Returned \<longrightarrow> trace = calls)
            \<and> ((\<forall>e\<in>set calls. \<not> throws e) \<longrightarrow> r = Returned \<and> trace = calls)
            \<and> (\<forall>c\<in>set (registered s ''*''). count_list calls (Global c (state s') (Keys (map fst updates))) = 1)
            \<and> (\<forall>c key old new st. Middleware c key old new st \<notin> set trace)
            \<and> (\<forall>c new old. Listener c new old \<notin> set trace)))"
proof -
  assume reach: "s = run_ops throws0 (new_Store init) ops"
  define s' where "s' = s\<lparr>state := foldl (\<lambda>st (key, val). AList.update key val st) (state s) updates\<rparr>"
  define gs where "gs = map (\<lambda>c. Global c (state s') (Keys (map fst updates))) (registered s ''*'')"
  define res where "res = forEach throws gs"
  have reg: "registered s' k = registered s k" for k
    by (simp add: s'_def registered_def)
  have eq: "batchUpdate throws updates s = (s', res)"
    by (simp add: batchUpdate_def Let_def notify_registered reg res_def gs_def
        s'_def [symmetric]) 
  have r: "runs res gs"
    unfolding res_def by (rule runs_forEach)
  have n: "res = (gs, Returned)" if "\<forall>e\<in>set gs. \<not> throws e"
    unfolding res_def using that by (rule forEach_no_throw)
  have "store_inv s"
    unfolding reach by (intro store_inv_run_ops store_inv_new)
  then have d: "distinct (registered s ''*'')"
    by (simp add: store_inv_def)
  have once: "count_list gs (Global c (state s') (Keys (map fst updates))) = 1"
    if "c \<in> set (registered s ''*'')" for c
    unfolding gs_def using d that
    by (intro count_list_map_distinct [where f = "\<lambda>c. Global c (state s') (Keys (map fst updates))"])
       (auto simp: inj_def)
  have only: "e \<in> set (fst res) \<Longrightarrow> e \<in> set gs" for e
    using r by (auto simp: runs_def dest: set_mono_prefix)
  have nm: "Middleware c key old new st \<notin> set (fst res)" for c key old new st
    using only [of "Middleware c key old new st"] by (auto simp: gs_def)
  have nl: "Listener c new old \<notin> set (fst res)" for c new old
    using only [of "Listener c new old"] by (auto simp: gs_def)
  have st: "map_of (state s') = map_of (state s) ++ map_of (rev updates)"
    by (simp add: s'_def map_of_foldl_update)
  have same: "listeners s' = listeners s" "middlewares s' = middlewares s"
    by (simp_all add: s'_def)
  obtain trace r where res: "res = (trace, r)"
    by (cases res)
  have p: "prefix trace gs" "r = Returned \<longrightarrow> trace = gs"
    using r by (simp_all add: runs_def res)
  have q: "(\<forall>e\<in>set gs. \<not> throws e) \<longrightarrow> r = Returned \<and> trace = gs"
    using n by (simp add: res)
  have nm': "\<forall>c key old new st. Middleware c key old new st \<notin> set trace"
    using nm by (simp add: res)
  have nl': "\<forall>c new old. Listener c new old \<notin> set trace"
    using nl by (simp add: res)
  show ?thesis
    unfolding eq res prod.case Let_def gs_def [symmetric]
    using st same p q once nm' nl' by blast
qed

theorem batchUpdate_notifies_once_witness:
  "snd (batchUpdate (\<lambda>e. False) [(''a'', Num 1), (''b'', Num 2)]
          (run_ops (\<lambda>e. False) (new_Store [(''a'', Num 0)])
             [Subscribe ''*'' 7, Subscribe ''a'' 8, Subscribe ''b'' 9, Use 1]))
   = ([Global 7 [(''a'', Num 1), (''b'', Num 2)] (Keys [''a'', ''b''])], Returned)"
  using batchUpdate_notifies_once [where throws = "\<lambda>e. False" and throws0 = "\<lambda>e. False"
      and init = "[(''a'', Num 0)]"
      and ops = "[Subscribe ''*'' 7, Subscribe ''a'' 8, Subscribe ''b'' 9, Use 1]"
      and updates = "[(''a'', Num 1), (''b'', Num 2)]", OF refl]
  by (auto simp: run_ops_def new_Store_def subscribe_def use_def set_add_def registered_def
      batchUpdate_def Let_def split: prod.splits)

subsection \<open>subscribe and the unsubscribe function\<close>


lemma snd_subscribe: "snd (subscribe key cb s) = Disposer key cb"
  by (simp add: subscribe_def Let_def)

lemma listeners_subscribe_Some: "\<exists>cbs. listeners (fst (subscribe key cb s)) key = Some cbs"
  by (simp add: subscribe_def Let_def)





lemma has_entry_run_op:
  "listeners s key \<noteq> None \<Longrightarrow> listeners (run_op throws s op) key \<noteq> None"
proof (cases op)
  case (Dispose d)
  assume "listeners s key \<noteq> None"
  then show ?thesis
    unfolding Dispose by (cases d) (auto split: option.splits)
qed (auto simp: setState_def subscribe_def use_def batchUpdate_def Let_def split: option.splits)

lemma has_entry_run_ops:
  "listeners s key \<noteq> None \<Longrightarrow> listeners (run_ops throws s ops) key \<noteq> None"
  unfolding run_ops_def
proof (induction ops arbitrary: s)
  case Nil
  then show ?case by simp
next
  case (Cons op ops)
  from Cons.prems have "listeners (run_op throws s op) key \<noteq> None"
    by (rule has_entry_run_op)
  then have "listeners (foldl (run_op throws) (run_op throws s op) ops) key \<noteq> None"
    by (rule Cons.IH)
  then show ?case by simp
qed

lemma absent_run_op:
  "cb \<notin> set (registered s key) \<Longrightarrow> op \<noteq> Subscribe key cb \<Longrightarrow>
     cb \<notin> set (registered (run_op throws s op) key)"
proof (cases op)
  case (Dispose d)
  assume a: "cb \<notin> set (registered s key)"
  obtain k c where d: "d = Disposer k c" by (cases d)
  show ?thesis
  proof (cases "dispose d s")
    case (Inl e)
    with a Dispose show ?thesis by simp
  next
    case (Inr s')
    then have "dispose (Disposer k c) s = Inr s'"
      by (simp add: d)
    from registered_dispose [OF this, of key] a have "cb \<notin> set (registered s' key)"
      by (auto simp: set_delete_def split: if_splits)
    with Inr Dispose show ?thesis by simp
  qed
qed (auto simp: registered_subscribe registered_setState registered_batchUpdate
      registered_use set_add_def)

lemma absent_run_ops:
  "cb \<notin> set (registered s key) \<Longrightarrow> Subscribe key cb \<notin> set ops \<Longrightarrow>
     cb \<notin> set (registered (run_ops throws s ops) key)"
  unfolding run_ops_def
proof (induction ops arbitrary: s)
  case Nil
  then show ?case by simp
next
  case (Cons op ops)
  from Cons.prems have "cb \<notin> set (registered (run_op throws s op) key)"
    by (intro absent_run_op) auto
  moreover from Cons.prems have "Subscribe key cb \<notin> set ops"
    by simp
  ultimately have "cb \<notin> set (registered (foldl (run_op throws) (run_op throws s op) ops) key)"
    by (rule Cons.IH)
  then show ?case by simp
qed

lemma dispose_absent:
  "listeners s key \<noteq> None \<Longrightarrow> cb \<notin> set (registered s key) \<Longrightarrow>
     dispose (Disposer key cb) s = Inr s"
  by (auto simp: registered_def set_delete_def map_upd_triv)

lemma dispose_present:
  "listeners s key \<noteq> None \<Longrightarrow>
     \<exists>s'. dispose (Disposer key cb) s = Inr s' \<and> listeners s' key \<noteq> None
          \<and> cb \<notin> set (registered s' key)"
  by (auto simp: registered_def set_delete_def)

lemma dispose_effect:
  "listeners s key \<noteq> None \<Longrightarrow>
     \<exists>s'. dispose (Disposer key cb) s = Inr s'
          \<and> registered s' key = removeAll cb (registered s key)
          \<and> (\<forall>k. k \<noteq> key \<longrightarrow> listeners s' k = listeners s k)
          \<and> state s' = state s \<and> middlewares s' = middlewares s"
  by (auto simp: registered_def set_delete_def)

text \<open>
  C10, as the code has it. After \<open>subscribe\<close> and any history of the store, the
  unsubscribe function returns without error; called again on the store it left, it
  returns without error and leaves the store exactly as it is. At any later time, after
  any further history, it returns without error, and what it does is delete its callback
  from the listeners of its key, leaving everything else as it is. So it leaves the store
  exactly as it is whenever that history does not subscribe the same callback to the
  same key again.
\<close>

theorem dispose_idempotent:
  "case subscribe key cb s of (s1, d) \<Rightarrow>
     (\<exists>s3. dispose d (run_ops throws s1 ops) = Inr s3
         \<and> dispose d s3 = Inr s3
         \<and> (\<exists>s4. dispose d (run_ops throws s3 later) = Inr s4
               \<and> registered s4 key = removeAll cb (registered (run_ops throws s3 later) key)
               \<and> (\<forall>k. k \<noteq> key \<longrightarrow> listeners s4 k = listeners (run_ops throws s3 later) k)
               \<and> state s4 = state (run_ops throws s3 later)
               \<and> middlewares s4 = middlewares (run_ops throws s3 later))
         \<and> (Subscribe key cb \<notin> set later \<longrightarrow>
              dispose d (run_ops throws s3 later) = Inr (run_ops throws s3 later)))"
proof -
  define s1 where "s1 = fst (subscribe key cb s)"
  have s1: "subscribe key cb s = (s1, Disposer key cb)"
    by (simp add: s1_def prod_eq_iff snd_subscribe)
  have "listeners s1 key \<noteq> None"
    using listeners_subscribe_Some [of key cb s] by (auto simp: s1_def)
  then have "listeners (run_ops throws s1 ops) key \<noteq> None"
    by (rule has_entry_run_ops)
  then obtain s3 where s3: "dispose (Disposer key cb) (run_ops throws s1 ops) = Inr s3"
      and e3: "listeners s3 key \<noteq> None" and a3: "cb \<notin> set (registered s3 key)"
    using dispose_present by blast
  have again: "dispose (Disposer key cb) s3 = Inr s3"
    using e3 a3 by (rule dispose_absent)
  have "listeners (run_ops throws s3 later) key \<noteq> None"
    using e3 by (rule has_entry_run_ops)
  then have any: "\<exists>s4. dispose (Disposer key cb) (run_ops throws s3 later) = Inr s4
               \<and> registered s4 key = removeAll cb (registered (run_ops throws s3 later) key)
               \<and> (\<forall>k. k \<noteq> key \<longrightarrow> listeners s4 k = listeners (run_ops throws s3 later) k)
               \<and> state s4 = state (run_ops throws s3 later)
               \<and> middlewares s4 = middlewares (run_ops throws s3 later)"
    by (rule dispose_effect)
  have later: "dispose (Disposer key cb) (run_ops throws s3 later) = Inr (run_ops throws s3 later)"
    if "Subscribe key cb \<notin> set later"
    using e3 a3 that by (intro dispose_absent has_entry_run_ops absent_run_ops)
  show ?thesis
    unfolding s1 prod.case using s3 again any later by blast
qed

theorem dispose_idempotent_witness:
  "Subscribe ''a'' 1 \<notin> set [SetState ''a'' Null, Subscribe ''a'' 2]
   \<and> dispose (Disposer ''a'' 1)
        (run_ops (\<lambda>e. False) (fst (subscribe ''a'' 1 (new_Store []))) [Subscribe ''b'' 1])
     = Inr \<lparr>state = [], listeners = [''a'' \<mapsto> [], ''b'' \<mapsto> [1]], middlewares = []\<rparr>
   \<and> dispose (Disposer ''a'' 1)
        \<lparr>state = [], listeners = [''a'' \<mapsto> [], ''b'' \<mapsto> [1]], middlewares = []\<rparr>
     = Inr \<lparr>state = [], listeners = [''a'' \<mapsto> [], ''b'' \<mapsto> [1]], middlewares = []\<rparr>
   \<and> dispose (Disposer ''a'' 1)
        (run_ops (\<lambda>e. False)
           \<lparr>state = [], listeners = [''a'' \<mapsto> [], ''b'' \<mapsto> [1]], middlewares = []\<rparr>
           [SetState ''a'' Null, Subscribe ''a'' 2])
     = Inr (run_ops (\<lambda>e. False)
           \<lparr>state = [], listeners = [''a'' \<mapsto> [], ''b'' \<mapsto> [1]], middlewares = []\<rparr>
           [SetState ''a'' Null, Subscribe ''a'' 2])"
  using dispose_idempotent [where key = "''a''" and cb = 1 and throws = "\<lambda>e. False"
      and s = "new_Store []" and ops = "[Subscribe ''b'' 1]"
      and later = "[SetState ''a'' Null, Subscribe ''a'' 2]"]
  by (auto simp: subscribe_def new_Store_def Let_def set_add_def set_delete_def run_ops_def
      setState_def fun_upd_twist split: prod.splits)

text \<open>
  C10 as stated fails: a later call of the unsubscribe function is not always without
  effect. Callback 1 is subscribed to \<open>a\<close> and its unsubscribe function called; the
  same callback is subscribed to \<open>a\<close> again; a second call of the first unsubscribe
  function then removes the new registration, so the listeners of \<open>a\<close> are not as they
  were before that call.
\<close>

theorem dispose_resubscribed_counterexample:
  "snd (subscribe ''a'' 1 (new_Store [])) = Disposer ''a'' 1
   \<and> dispose (Disposer ''a'' 1) (fst (subscribe ''a'' 1 (new_Store [])))
     = Inr \<lparr>state = [], listeners = [''a'' \<mapsto> []], middlewares = []\<rparr>
   \<and> fst (subscribe ''a'' 1 \<lparr>state = [], listeners = [''a'' \<mapsto> []], middlewares = []\<rparr>)
     = \<lparr>state = [], listeners = [''a'' \<mapsto> [1]], middlewares = []\<rparr>
   \<and> registered \<lparr>state = [], listeners = [''a'' \<mapsto> [1]], middlewares = []\<rparr> ''a'' = [1]
   \<and> dispose (Disposer ''a'' 1) \<lparr>state = [], listeners = [''a'' \<mapsto> [1]], middlewares = []\<rparr>
     = Inr \<lparr>state = [], listeners = [''a'' \<mapsto> []], middlewares = []\<rparr>
   \<and> registered \<lparr>state = [], listeners = [''a'' \<mapsto> []], middlewares = []\<rparr> ''a'' = []"
  by (simp add: subscribe_def new_Store_def Let_def set_add_def set_delete_def registered_def)

section \<open>Properties of the router\<close>

subsection \<open>Before hooks\<close>

lemma run_beforeHooks_shape:
  "run_beforeHooks host p q hs = (tr, res) \<Longrightarrow>
     tr = map (\<lambda>h. BeforeHook h p q) (take (length tr) hs)
     \<and> (\<forall>e\<in>set (butlast tr). host e = ReturnsOther)
     \<and> (res = None \<longrightarrow> (\<forall>e\<in>set tr. host e = ReturnsOther))
     \<and> (res = Some Cancelled \<longrightarrow> tr \<noteq> [] \<and> host (last tr) = ReturnsFalse)
     \<and> (res = Some Rejected \<longrightarrow> tr \<noteq> [] \<and> host (last tr) = Throws)
     \<and> res \<noteq> Some Navigated"
proof (induction hs arbitrary: tr res)
  case Nil
  then show ?case by auto
next
  case (Cons h hs)
  show ?case
  proof (cases "host (BeforeHook h p q)")
    case ReturnsFalse
    with Cons.prems show ?thesis by auto
  next
    case Throws
    with Cons.prems show ?thesis by auto
  next
    case ReturnsOther
    obtain tr' res' where r: "run_beforeHooks host p q hs = (tr', res')"
      by (cases "run_beforeHooks host p q hs")
    from Cons.prems ReturnsOther r have tr: "tr = BeforeHook h p q # tr'" and res: "res = res'"
      by auto
    note ih = Cons.IH [OF r]
    show ?thesis
      unfolding tr res using ih ReturnsOther by (auto split: if_splits)
  qed
qed

lemma await_all_subset: "e \<in> set (fst (await_all host cs)) \<Longrightarrow> e \<in> set cs"
  by (induction cs) (auto split: if_splits prod.splits)

lemma handleRouteChange_pass:
  assumes "parseHash location_hash = Inr (path, ps)"
    and "run_beforeHooks host path (currentRoute r) (beforeHooks r) = (tr0, None)"
  shows "\<exists>calls. (\<forall>g p q. BeforeHook g p q \<notin> set calls)
           \<and> handleRouteChange host location_hash r =
               (r\<lparr>currentRoute := Some path\<rparr>, tr0 @ fst (await_all host calls),
                snd (await_all host calls))"
proof -
  define handler_call where "handler_call =
     (case routes r path of
        Some handler \<Rightarrow> [Handler handler ps]
      | None \<Rightarrow> (case notFoundHandler r of
                   Some handler \<Rightarrow> [NotFoundHandler handler path]
                 | None \<Rightarrow> []))"
  define calls where "calls = handler_call @ [UpdateNavLinks path]
     @ map (\<lambda>hook. AfterHook hook path (currentRoute r)) (afterHooks r)"
  have "BeforeHook g p q \<notin> set calls" for g p q
    by (auto simp: calls_def handler_call_def split: option.splits)
  moreover have "handleRouteChange host location_hash r =
               (r\<lparr>currentRoute := Some path\<rparr>, tr0 @ fst (await_all host calls),
                snd (await_all host calls))"
    using assms
    by (simp add: handleRouteChange_def Let_def calls_def handler_call_def case_prod_beta
        del: await_all.simps cong: option.case_cong)
  ultimately show ?thesis by blast
qed

text \<open>
  C5. If in a transition a before hook is called and gives \<open>false\<close>, the transition is
  cancelled and the router is as it was, its current route included. The calls of the
  transition are the before hooks in registration order up to that hook, which is the
  last call: no route handler, no not-found handler, no update of the navigation links,
  no after hook and no later before hook is called. Every hook before it let the
  transition pass.
\<close>

theorem guard_false_aborts:
  "handleRouteChange host location_hash r = (r', trace, res) \<Longrightarrow>
   BeforeHook g p q \<in> set trace \<Longrightarrow>
   host (BeforeHook g p q) = ReturnsFalse \<Longrightarrow>
     r' = r \<and> res = Cancelled
     \<and> trace = map (\<lambda>h. BeforeHook h p q) (take (length trace) (beforeHooks r))
     \<and> last trace = BeforeHook g p q
     \<and> (\<forall>e\<in>set (butlast trace). host e = ReturnsOther)
     \<and> q = currentRoute r \<and> (\<exists>ps. parseHash location_hash = Inr (p, ps))
     \<and> (\<forall>h ps. Handler h ps \<notin> set trace)
     \<and> (\<forall>h path. NotFoundHandler h path \<notin> set trace)
     \<and> (\<forall>path. UpdateNavLinks path \<notin> set trace)
     \<and> (\<forall>h path prev. AfterHook h path prev \<notin> set trace)"
proof -
  assume run: "handleRouteChange host location_hash r = (r', trace, res)"
    and inn: "BeforeHook g p q \<in> set trace"
    and no: "host (BeforeHook g p q) = ReturnsFalse"
  from run inn obtain path ps where parse: "parseHash location_hash = Inr (path, ps)"
    by (cases "parseHash location_hash") (auto simp: handleRouteChange_def)
  obtain tr0 res0 where before: "run_beforeHooks host path (currentRoute r) (beforeHooks r) = (tr0, res0)"
    by (cases "run_beforeHooks host path (currentRoute r) (beforeHooks r)")
  note shape = run_beforeHooks_shape [OF before]
  show ?thesis
  proof (cases res0)
    case None
    with shape have ok: "\<forall>e\<in>set tr0. host e = ReturnsOther"
      by simp
    from handleRouteChange_pass [OF parse before [unfolded None]] obtain calls
      where nb: "\<forall>g p q. BeforeHook g p q \<notin> set calls"
        and eq: "handleRouteChange host location_hash r =
               (r\<lparr>currentRoute := Some path\<rparr>, tr0 @ fst (await_all host calls),
                snd (await_all host calls))"
      by blast
    from run eq have "trace = tr0 @ fst (await_all host calls)"
      by simp
    with inn nb await_all_subset [of "BeforeHook g p q" host calls]
    have "BeforeHook g p q \<in> set tr0"
      by auto
    with ok no show ?thesis by force
  next
    case (Some t)
    with run parse before have eq: "r' = r" "trace = tr0" "res = t"
      by (auto simp: handleRouteChange_def Let_def)
    from shape have "set tr0 \<subseteq> (\<lambda>h. BeforeHook h path (currentRoute r)) ` set (beforeHooks r)"
      by (metis (no_types) list.set_map image_mono set_take_subset)
    with inn eq have pq: "p = path" "q = currentRoute r"
      by auto
    have ne: "tr0 \<noteq> []"
      using inn eq by auto
    then have "set tr0 = set (butlast tr0) \<union> {last tr0}"
      by (metis append_butlast_last_id set_append list.set(1) list.simps(15))
    with inn eq have "BeforeHook g p q \<in> set (butlast tr0) \<or> BeforeHook g p q = last tr0"
      by auto
    with shape no have l: "last tr0 = BeforeHook g p q"
      by auto
    with shape Some no have t: "t = Cancelled"
      by (cases t) auto
    from shape pq have tr: "tr0 = map (\<lambda>h. BeforeHook h p q) (take (length tr0) (beforeHooks r))"
      by simp
    have only: "e \<in> set tr0 \<Longrightarrow> \<exists>h. e = BeforeHook h p q" for e
      by (subst (asm) tr) auto
    have "\<forall>h ps. Handler h ps \<notin> set tr0" "\<forall>h path. NotFoundHandler h path \<notin> set tr0"
      "\<forall>path. UpdateNavLinks path \<notin> set tr0" "\<forall>h path prev. AfterHook h path prev \<notin> set tr0"
      using only by blast+
    with eq shape l pq parse t tr show ?thesis
      by (simp del: map_eq_conv)
  qed
qed

theorem guard_false_aborts_witness:
  "handleRouteChange
     (\<lambda>e. case e of BeforeHook g p q \<Rightarrow> if g = 2 then ReturnsFalse else ReturnsOther
                  | _ \<Rightarrow> ReturnsOther)
     (units ''#settings'')
     \<lparr>routes = [units ''settings'' \<mapsto> 10], currentRoute = Some (units ''dashboard''),
      beforeHooks = [1, 2, 3], afterHooks = [20], notFoundHandler = Some 30\<rparr>
   = (\<lparr>routes = [units ''settings'' \<mapsto> 10], currentRoute = Some (units ''dashboard''),
       beforeHooks = [1, 2, 3], afterHooks = [20], notFoundHandler = Some 30\<rparr>,
      [BeforeHook 1 (units ''settings'') (Some (units ''dashboard'')),
       BeforeHook 2 (units ''settings'') (Some (units ''dashboard''))],
      Cancelled)"
proof -
  define host where "host = (\<lambda>e. case e of
      BeforeHook g p q \<Rightarrow> if g = (2::nat) then ReturnsFalse else ReturnsOther
    | _ \<Rightarrow> ReturnsOther)"
  define r where "r = \<lparr>routes = [units ''settings'' \<mapsto> 10],
      currentRoute = Some (units ''dashboard''),
      beforeHooks = [1, 2, 3], afterHooks = [20], notFoundHandler = Some 30\<rparr>"
  obtain r' trace res where run: "handleRouteChange host (units ''#settings'') r = (r', trace, res)"
    by (cases "handleRouteChange host (units ''#settings'') r")
  then have tr: "trace = [BeforeHook 1 (units ''settings'') (Some (units ''dashboard'')),
       BeforeHook 2 (units ''settings'') (Some (units ''dashboard''))]"
    by (simp add: handleRouteChange_def parseHash_def units_def host_def r_def Let_def)
  have inn: "BeforeHook 2 (units ''settings'') (Some (units ''dashboard'')) \<in> set trace"
    by (simp add: tr)
  have no: "host (BeforeHook 2 (units ''settings'') (Some (units ''dashboard''))) = ReturnsFalse"
    by (simp add: host_def)
  from guard_false_aborts [OF run inn no] have "r' = r" "res = Cancelled"
    by simp_all
  with run tr show ?thesis
    by (simp add: host_def r_def)
qed

subsection \<open>Parsing the fragment\<close>

lemma decodeURIComponent_plain: "37 \<notin> set cs \<Longrightarrow> decodeURIComponent cs = Inr cs"
  by (induction cs) simp_all

lemma decodeURIComponent_error: "decodeURIComponent cs = Inl e \<Longrightarrow> e = URIError"
  by (induction cs arbitrary: e rule: decodeURIComponent.induct)
     (auto split: if_splits sum.splits option.splits)

lemma split_str_members: "p \<in> set (split_str sep cs) \<Longrightarrow> set p \<subseteq> set cs"
proof (induction cs arbitrary: p)
  case Nil
  then show ?case by simp
next
  case (Cons c cs)
  show ?case
  proof (cases "split_str sep cs")
    case Nil
    with Cons.prems show ?thesis by (auto split: if_splits)
  next
    case (Cons a list)
    have a: "set a \<subseteq> set cs" and l: "\<And>q. q \<in> set list \<Longrightarrow> set q \<subseteq> set cs"
      using Cons.IH Cons by simp_all
    from Cons.prems Cons have "p = [] \<or> p = a \<or> p = c # a \<or> p \<in> set list"
      by (auto split: if_splits)
    with a l show ?thesis by auto
  qed
qed

lemma pair_key_plain: "37 \<notin> set pair \<Longrightarrow> 37 \<notin> set (pair_key pair)"
  using split_str_members [of _ 61 pair] by (cases "split_str 61 pair") (auto simp: pair_key_def)

lemma second_part_plain:
  "37 \<notin> set cs \<Longrightarrow> 37 \<notin> set (case split_str sep cs of _ # v # _ \<Rightarrow> v | _ \<Rightarrow> [])"
proof -
  assume plain: "37 \<notin> set cs"
  show ?thesis
  proof (cases "split_str sep cs")
    case Nil
    then show ?thesis by simp
  next
    case (Cons p ps)
    show ?thesis
    proof (cases ps)
      case Nil
      with Cons show ?thesis by simp
    next
      case (Cons v vs)
      with \<open>split_str sep cs = p # ps\<close> have "v \<in> set (split_str sep cs)"
        by simp
      from split_str_members [OF this] plain have "37 \<notin> set v"
        by auto
      with Cons \<open>split_str sep cs = p # ps\<close> show ?thesis by simp
    qed
  qed
qed

lemma pair_value_plain: "37 \<notin> set pair \<Longrightarrow> 37 \<notin> set (pair_value pair)"
  unfolding pair_value_def by (rule second_part_plain)

lemma parse_pairs_error: "parse_pairs pairs ps = Inl e \<Longrightarrow> e = URIError"
  by (induction pairs arbitrary: ps)
     (auto split: sum.splits dest: decodeURIComponent_error)

lemma parse_pairs_missing_value:
  "61 \<notin> set pair \<Longrightarrow> decodeURIComponent pair = Inr k \<Longrightarrow>
     parse_pairs (pair # pairs) ps = parse_pairs pairs (AList.update k [] ps)"
proof -
  assume "61 \<notin> set pair"
  then have "split_str 61 pair = [pair]"
    by (induction pair) auto
  moreover assume "decodeURIComponent pair = Inr k"
  ultimately show ?thesis by (simp add: pair_key_def pair_value_def)
qed

lemma parse_pairs_raises:
  "(\<exists>e. parse_pairs pairs ps = Inl e) \<longleftrightarrow> (\<exists>pair\<in>set pairs. rejected pair)"
proof (induction pairs arbitrary: ps)
  case Nil
  show ?case by simp
next
  case (Cons pair pairs)
  show ?case
  proof (cases "decodeURIComponent (pair_key pair)")
    case (Inl e)
    then have "rejected pair"
      by (auto simp: rejected_def dest: decodeURIComponent_error)
    with Inl show ?thesis by simp
  next
    case k: (Inr k)
    show ?thesis
    proof (cases "decodeURIComponent (pair_value pair)")
      case (Inl e)
      then have "rejected pair"
        by (auto simp: rejected_def dest: decodeURIComponent_error)
      with k Inl show ?thesis by simp
    next
      case (Inr v)
      with k have "\<not> rejected pair"
        by (simp add: rejected_def)
      with k Inr Cons.IH [of "AList.update k v ps"] show ?thesis by simp
    qed
  qed
qed

lemma parseHash_raises:
  "(\<exists>e. parseHash location_hash = Inl e) \<longleftrightarrow> (\<exists>pair\<in>set (query_pairs location_hash). rejected pair)"
  unfolding parse_pairs_raises [symmetric, of "query_pairs location_hash" "[]"]
  by (auto simp: parseHash_def query_pairs_def Let_def split: sum.splits)

lemma decodeURIComponent_bad_escape:
  "37 \<notin> set xs \<Longrightarrow> hex_octet ys = None \<Longrightarrow> decodeURIComponent (xs @ 37 # ys) = Inl URIError"
  by (induction xs) (simp_all add: escape_seq_def)

text \<open>
  C6, as the code has it. The only error that \<open>parseHash\<close> raises is \<open>URIError\<close>, and
  it raises it exactly when \<^verbatim>\<open>decodeURIComponent\<close> rejects the key or the value of a
  pair of the query string. A string without \<open>%\<close> is never rejected, so parsing a
  fragment without \<open>%\<close> returns a path and parameters; a string whose first \<open>%\<close> is
  not followed by two hexadecimal digits is rejected. A pair without \<open>=\<close> has the
  empty string as its value, and when its key decodes it enters the parameters with that
  value.
\<close>

theorem parseHash_tolerant:
  "(parseHash location_hash = Inl e \<longrightarrow> e = URIError)
   \<and> ((\<exists>e. parseHash location_hash = Inl e)
        \<longleftrightarrow> (\<exists>pair\<in>set (query_pairs location_hash). rejected pair))
   \<and> (37 \<notin> set location_hash \<longrightarrow> (\<exists>path ps. parseHash location_hash = Inr (path, ps)))
   \<and> (37 \<notin> set xs \<longrightarrow> hex_octet ys = None \<longrightarrow>
        decodeURIComponent (xs @ 37 # ys) = Inl URIError)
   \<and> (61 \<notin> set pair \<longrightarrow>
        pair_value pair = []
        \<and> (decodeURIComponent pair = Inr k \<longrightarrow>
             parse_pairs (pair # pairs) ps = parse_pairs pairs (AList.update k [] ps)))"
proof (intro conjI impI)
  assume "parseHash location_hash = Inl e"
  then show "e = URIError"
    by (auto simp: parseHash_def Let_def split: if_splits sum.splits dest: parse_pairs_error)
next
  show "(\<exists>e. parseHash location_hash = Inl e)
        \<longleftrightarrow> (\<exists>pair\<in>set (query_pairs location_hash). rejected pair)"
    by (rule parseHash_raises)
next
  assume plain: "37 \<notin> set location_hash"
  define hash where
    "hash = (if drop 1 location_hash = [] then units ''dashboard'' else drop 1 location_hash)"
  define queryString where
    "queryString = (case split_str 63 hash of _ # q # _ \<Rightarrow> q | _ \<Rightarrow> [])"
  have "37 \<notin> set hash"
    using plain by (auto simp: hash_def units_def dest: in_set_dropD)
  then have "37 \<notin> set queryString"
    unfolding queryString_def by (rule second_part_plain)
  then have "\<forall>pair\<in>set (split_str 38 queryString). 37 \<notin> set pair"
    using split_str_members by blast
  moreover have "set (query_pairs location_hash) \<subseteq> set (split_str 38 queryString)"
    unfolding query_pairs_def Let_def hash_def [symmetric] queryString_def [symmetric]
    by simp
  ultimately have "\<forall>pair\<in>set (query_pairs location_hash). 37 \<notin> set pair"
    by blast
  then have "\<not> (\<exists>pair\<in>set (query_pairs location_hash). rejected pair)"
    by (auto simp: rejected_def decodeURIComponent_plain pair_key_plain pair_value_plain)
  then have "\<not> (\<exists>e. parseHash location_hash = Inl e)"
    using parseHash_raises [of location_hash] by blast
  then show "\<exists>path ps. parseHash location_hash = Inr (path, ps)"
    by (cases "parseHash location_hash") auto
next
  assume "37 \<notin> set xs" "hex_octet ys = None"
  then show "decodeURIComponent (xs @ 37 # ys) = Inl URIError"
    by (rule decodeURIComponent_bad_escape)
next
  assume "61 \<notin> set pair"
  then have "split_str 61 pair = [pair]"
    by (induction pair) auto
  then show "pair_value pair = []"
    by (simp add: pair_value_def)
next
  assume "61 \<notin> set pair" "decodeURIComponent pair = Inr k"
  then show "parse_pairs (pair # pairs) ps = parse_pairs pairs (AList.update k [] ps)"
    by (rule parse_pairs_missing_value)
qed

theorem parseHash_tolerant_witness:
  "37 \<notin> set (units ''#settings?flag'') \<and> 61 \<notin> set (units ''flag'')
   \<and> hex_octet (units ''zz'') = None
   \<and> parseHash (units ''#settings?flag'') = Inr (units ''settings'', [(units ''flag'', [])])
   \<and> decodeURIComponent (units ''a%zz'') = Inl URIError"
  using parseHash_tolerant [where location_hash = "units ''#settings?flag''"
      and pair = "units ''flag''" and k = "units ''flag''" and pairs = "[]" and ps = "[]"
      and xs = "units ''a''" and ys = "units ''zz''"]
  by (simp add: parseHash_def units_def pair_key_def pair_value_def hex_octet_def hex_digit_def)

text \<open>
  C6 as stated fails: the fragment \<^verbatim>\<open>#settings?tab=%\<close> has a \<open>%\<close> without two
  hexadecimal digits after it, and parsing it raises \<open>URIError\<close>.
\<close>

theorem parseHash_raises_counterexample:
  "parseHash (units ''#settings?tab=%'') = Inl URIError"
  by (simp add: parseHash_def units_def pair_key_def pair_value_def escape_seq_def hex_octet_def)

text \<open>Well-formed escapes are decoded, and only the first two parts of a pair count.\<close>

lemma parseHash_example:
  "parseHash (units ''#settings?tab=a%20b&flag&x=1=2'')
     = Inr (units ''settings'', [(units ''tab'', units ''a b''), (units ''flag'', []), (units ''x'', units ''1'')])"
  by (simp add: parseHash_def units_def pair_key_def pair_value_def escape_seq_def hex_octet_def
      hex_digit_def leading_ones_def)

section \<open>Properties of snapshots\<close>

subsection \<open>What JSON.parse allocates\<close>

lemma refs_in_mono: "refs_in lo hi xs \<Longrightarrow> lo2 \<le> lo \<Longrightarrow> hi \<le> hi2 \<Longrightarrow> refs_in lo2 hi2 xs"
  by (fastforce simp: refs_in_def)

lemma region_refl: "region h h"
  by (simp add: region_def)

lemma region_length: "region h h' \<Longrightarrow> length h \<le> length h'"
  by (auto simp: region_def)

lemma region_trans: "region h h1 \<Longrightarrow> region h1 h2 \<Longrightarrow> region h h2"
proof -
  assume "region h h1" "region h1 h2"
  then obtain n1 n2 where 1: "h1 = h @ n1" "\<forall>ob\<in>set n1. refs_in (length h) (length h1) (obj_refs ob)"
    and 2: "h2 = h1 @ n2" "\<forall>ob\<in>set n2. refs_in (length h1) (length h2) (obj_refs ob)"
    by (auto simp: region_def)
  have "h2 = h @ (n1 @ n2)" using 1 2 by simp
  moreover have "\<forall>ob\<in>set (n1 @ n2). refs_in (length h) (length h2) (obj_refs ob)"
    using 1 2 by (auto intro: refs_in_mono)
  ultimately show ?thesis unfolding region_def by blast
qed

lemma region_snoc:
  "refs_in (length h) (length h1) (obj_refs ob) \<Longrightarrow> region h h1 \<Longrightarrow> region h (h1 @ [ob])"
proof -
  assume w: "refs_in (length h) (length h1) (obj_refs ob)" and "region h h1"
  then obtain n1 where 1: "h1 = h @ n1" "\<forall>ob\<in>set n1. refs_in (length h) (length h1) (obj_refs ob)"
    by (auto simp: region_def)
  have "h1 @ [ob] = h @ (n1 @ [ob])" using 1 by simp
  moreover have "\<forall>o'\<in>set (n1 @ [ob]). refs_in (length h) (length (h1 @ [ob])) (obj_refs o')"
    using 1 w by (auto intro: refs_in_mono)
  ultimately show ?thesis unfolding region_def by blast
qed

lemma from_json_region:
  "from_json j h = (h', v) \<Longrightarrow> region h h' \<and> refs_in (length h) (length h') (val_refs v)"
  "from_json_props ms h = (h', ps) \<Longrightarrow> region h h' \<and> refs_in (length h) (length h') (obj_refs (Obj ps))"
  "from_json_elems js h = (h', vs) \<Longrightarrow> region h h' \<and> refs_in (length h) (length h') (obj_refs (Arr vs))"
proof (induction j h and ms h and js h arbitrary: h' v and h' ps and h' vs
    rule: from_json_from_json_props_from_json_elems.induct)
  case (5 js h)
  obtain h1 vs where a: "from_json_elems js h = (h1, vs)" by (cases "from_json_elems js h")
  from "5.IH" [OF a] have "region h h1" "refs_in (length h) (length h1) (obj_refs (Arr vs))"
    by simp_all
  moreover from "5.prems" a have "h' = h1 @ [Arr vs]" "v = Ref (length h1)" by auto
  ultimately show ?case
    using region_length [of h h1] by (auto intro: region_snoc simp: refs_in_def)
next
  case (6 ms h)
  obtain h1 ps where a: "from_json_props ms h = (h1, ps)" by (cases "from_json_props ms h")
  from "6.IH" [OF a] have "region h h1" "refs_in (length h) (length h1) (obj_refs (Obj ps))"
    by simp_all
  moreover from "6.prems" a have "h' = h1 @ [Obj ps]" "v = Ref (length h1)" by auto
  ultimately show ?case
    using region_length [of h h1] by (auto intro: region_snoc simp: refs_in_def)
next
  case (8 k j ms h)
  obtain h1 v1 where a: "from_json j h = (h1, v1)" by (cases "from_json j h")
  obtain h2 ps2 where b: "from_json_props ms h1 = (h2, ps2)" by (cases "from_json_props ms h1")
  from "8.IH"(1) [OF a] have 1: "region h h1" "refs_in (length h) (length h1) (val_refs v1)"
    by simp_all
  from "8.IH"(2) [OF a [symmetric] b]
  have 2: "region h1 h2" "refs_in (length h1) (length h2) (obj_refs (Obj ps2))"
    by simp_all
  from "8.prems" a b have e: "h' = h2" "ps = (k, v1) # ps2" by auto
  have "refs_in (length h) (length h2) (val_refs v1)"
    using 1 2 by (auto intro: refs_in_mono dest: region_length)
  moreover have "refs_in (length h) (length h2) (obj_refs (Obj ps2))"
    using 1 2 by (auto intro: refs_in_mono dest: region_length)
  ultimately show ?case
    using region_trans [OF 1(1) 2(1)] e by (auto simp: refs_in_def)
next
  case (10 j js h)
  obtain h1 v1 where a: "from_json j h = (h1, v1)" by (cases "from_json j h")
  obtain h2 vs2 where b: "from_json_elems js h1 = (h2, vs2)" by (cases "from_json_elems js h1")
  from "10.IH"(1) [OF a] have 1: "region h h1" "refs_in (length h) (length h1) (val_refs v1)"
    by simp_all
  from "10.IH"(2) [OF a [symmetric] b]
  have 2: "region h1 h2" "refs_in (length h1) (length h2) (obj_refs (Arr vs2))"
    by simp_all
  from "10.prems" a b have e: "h' = h2" "vs = v1 # vs2" by auto
  have "refs_in (length h) (length h2) (val_refs v1)"
    using 1 2 by (auto intro: refs_in_mono dest: region_length)
  moreover have "refs_in (length h) (length h2) (obj_refs (Arr vs2))"
    using 1 2 by (auto intro: refs_in_mono dest: region_length)
  ultimately show ?case
    using region_trans [OF 1(1) 2(1)] e by (auto simp: refs_in_def)
qed (auto simp: region_refl refs_in_def)

lemma reach_region:
  assumes "region h h'" and "roots \<subseteq> {length h..<length h'}"
  shows "reach h' roots \<subseteq> {length h..<length h'}"
proof
  fix a assume "a \<in> reach h' roots"
  then show "a \<in> {length h..<length h'}"
  proof (induction rule: reach.induct)
    case (root a)
    with assms show ?case by auto
  next
    case (step a b)
    from assms obtain new where n: "h' = h @ new"
      "\<forall>ob\<in>set new. refs_in (length h) (length h') (obj_refs ob)"
      by (auto simp: region_def)
    from step have "h' ! a = new ! (a - length h)" "a - length h < length new"
      using n by (auto simp: nth_append)
    then have "h' ! a \<in> set new" by simp
    with n step show ?case by (auto simp: refs_in_def)
  qed
qed

lemma from_json_appends:
  "from_json j h = (h', v) \<Longrightarrow> \<exists>new. h' = h @ new"
  "from_json_props ms h = (h', ps) \<Longrightarrow> \<exists>new. h' = h @ new"
  "from_json_elems js h = (h', vs) \<Longrightarrow> \<exists>new. h' = h @ new"
  using from_json_region(1) [of j h h' v] from_json_region(2) [of ms h h' ps]
    from_json_region(3) [of js h h' vs]
  by (auto simp: region_def)

text \<open>Writing the parsed value again gives the text it was parsed from.\<close>

lemma read_back:
  "from_json j h = (h', v) \<Longrightarrow>
     (\<forall>b\<in>set stack. length h' \<le> b) \<Longrightarrow> to_json (h' @ rest) stack v = Inr (Some j)"
  "from_json_props ms h = (h', ps) \<Longrightarrow>
     (\<forall>b\<in>set stack. length h' \<le> b) \<Longrightarrow> to_json_props (h' @ rest) stack ps = Inr ms"
  "from_json_elems js h = (h', vs) \<Longrightarrow>
     (\<forall>b\<in>set stack. length h' \<le> b) \<Longrightarrow> to_json_elems (h' @ rest) stack vs = Inr js"
proof (induction j h and ms h and js h arbitrary: h' v stack rest and h' ps stack rest
    and h' vs stack rest rule: from_json_from_json_props_from_json_elems.induct)
  case (5 js h)
  obtain h1 vs where a: "from_json_elems js h = (h1, vs)" by (cases "from_json_elems js h")
  from "5.prems" a have e: "h' = h1 @ [Arr vs]" "v = Ref (length h1)" by auto
  have st: "\<forall>b\<in>set (length h1 # stack). length h1 \<le> b"
    using "5.prems"(2) e by auto
  have "to_json_elems (h1 @ ([Arr vs] @ rest)) (length h1 # stack) vs = Inr js"
    by (rule "5.IH" [OF a st])
  moreover have "length h1 \<notin> set stack"
    using "5.prems"(2) e by auto
  ultimately show ?case
    by (simp add: e nth_append)
next
  case (6 ms h)
  obtain h1 ps where a: "from_json_props ms h = (h1, ps)" by (cases "from_json_props ms h")
  from "6.prems" a have e: "h' = h1 @ [Obj ps]" "v = Ref (length h1)" by auto
  have st: "\<forall>b\<in>set (length h1 # stack). length h1 \<le> b"
    using "6.prems"(2) e by auto
  have "to_json_props (h1 @ ([Obj ps] @ rest)) (length h1 # stack) ps = Inr ms"
    by (rule "6.IH" [OF a st])
  moreover have "length h1 \<notin> set stack"
    using "6.prems"(2) e by auto
  ultimately show ?case
    by (simp add: e nth_append)
next
  case (8 k j ms h)
  obtain h1 v1 where a: "from_json j h = (h1, v1)" by (cases "from_json j h")
  obtain h2 ps2 where b: "from_json_props ms h1 = (h2, ps2)" by (cases "from_json_props ms h1")
  from "8.prems" a b have e: "h' = h2" "ps = (k, v1) # ps2" by auto
  from from_json_appends(2) [OF b] obtain n2 where n2: "h2 = h1 @ n2" by blast
  have st1: "\<forall>b\<in>set stack. length h1 \<le> b"
    using "8.prems"(2) e n2 by auto
  have "to_json (h1 @ (n2 @ rest)) stack v1 = Inr (Some j)"
    by (rule "8.IH"(1) [OF a st1])
  then have 1: "to_json (h2 @ rest) stack v1 = Inr (Some j)"
    by (simp add: n2)
  have 2: "to_json_props (h2 @ rest) stack ps2 = Inr ms"
    using "8.prems"(2) e by (intro "8.IH"(2) [OF a [symmetric] b]) simp
  show ?case
    by (simp add: e 1 2)
next
  case (10 j js h)
  obtain h1 v1 where a: "from_json j h = (h1, v1)" by (cases "from_json j h")
  obtain h2 vs2 where b: "from_json_elems js h1 = (h2, vs2)" by (cases "from_json_elems js h1")
  from "10.prems" a b have e: "h' = h2" "vs = v1 # vs2" by auto
  from from_json_appends(3) [OF b] obtain n2 where n2: "h2 = h1 @ n2" by blast
  have st1: "\<forall>b\<in>set stack. length h1 \<le> b"
    using "10.prems"(2) e n2 by auto
  have "to_json (h1 @ (n2 @ rest)) stack v1 = Inr (Some j)"
    by (rule "10.IH"(1) [OF a st1])
  then have 1: "to_json (h2 @ rest) stack v1 = Inr (Some j)"
    by (simp add: n2)
  have 2: "to_json_elems (h2 @ rest) stack vs2 = Inr js"
    using "10.prems"(2) e by (intro "10.IH"(2) [OF a [symmetric] b]) simp
  show ?case
    by (simp add: e 1 2)
qed auto

subsection \<open>What JSON.stringify reads\<close>

text \<open>
  In a closed heap the text of a value depends on the objects of that heap only: objects
  added after them, whatever they hold, do not change it.
\<close>

lemma closed_cells_nth:
  "closed_cells h \<Longrightarrow> a < length h \<Longrightarrow> list_all (\<lambda>b. b < length h) (obj_refs (h ! a))"
  by (simp add: closed_cells_def list_all_length)

lemma to_json_agree:
  "closed_cells h \<Longrightarrow> list_all (\<lambda>a. a < length h) (val_refs v) \<Longrightarrow>
     to_json (h @ rest) stack v = to_json h stack v"
  "closed_cells h \<Longrightarrow> list_all (\<lambda>a. a < length h) (obj_refs (Obj ps)) \<Longrightarrow>
     to_json_props (h @ rest) stack ps = to_json_props h stack ps"
  "closed_cells h \<Longrightarrow> list_all (\<lambda>a. a < length h) (obj_refs (Arr vs)) \<Longrightarrow>
     to_json_elems (h @ rest) stack vs = to_json_elems h stack vs"
proof (induction h stack v and h stack ps and h stack vs
    rule: to_json_to_json_props_to_json_elems.induct)
  case (7 h stack a)
  then have a: "a < length h" by simp
  show ?case
  proof (cases "a \<in> set stack")
    case True
    then show ?thesis by simp
  next
    case False
    note refs = closed_cells_nth [OF "7.prems"(1) a]
    show ?thesis
    proof (cases "h ! a")
      case (Obj ps)
      with refs have "list_all (\<lambda>a. a < length h) (obj_refs (Obj ps))" by simp
      from "7.IH"(1) [OF False a Obj "7.prems"(1) this] show ?thesis
        using False a Obj by (simp add: nth_append)
    next
      case (Arr vs)
      with refs have "list_all (\<lambda>a. a < length h) (obj_refs (Arr vs))" by simp
      from "7.IH"(2) [OF False a Arr "7.prems"(1) this] show ?thesis
        using False a Arr by (simp add: nth_append)
    qed
  qed
next
  case (9 h stack k v ps)
  from "9.prems" have v: "list_all (\<lambda>a. a < length h) (val_refs v)"
    and ps: "list_all (\<lambda>a. a < length h) (obj_refs (Obj ps))"
    by simp_all
  note 1 = "9.IH"(1) [OF "9.prems"(1) v]
  show ?case
  proof (cases "to_json h stack v")
    case (Inl e)
    with 1 show ?thesis by simp
  next
    case (Inr r)
    show ?thesis
    proof (cases r)
      case None
      from "9.IH"(2) [OF Inr None "9.prems"(1) ps] 1 Inr None show ?thesis by simp
    next
      case (Some j)
      from "9.IH"(3) [OF Inr Some "9.prems"(1) ps] 1 Inr Some show ?thesis by simp
    qed
  qed
next
  case (11 h stack v vs)
  from "11.prems" have v: "list_all (\<lambda>a. a < length h) (val_refs v)"
    and vs: "list_all (\<lambda>a. a < length h) (obj_refs (Arr vs))"
    by simp_all
  note 1 = "11.IH"(1) [OF "11.prems"(1) v]
  show ?case
  proof (cases "to_json h stack v")
    case (Inl e)
    with 1 show ?thesis by simp
  next
    case (Inr r)
    show ?thesis
    proof (cases r)
      case None
      from "11.IH"(2) [OF Inr None "11.prems"(1) vs] 1 Inr None show ?thesis by simp
    next
      case (Some j)
      from "11.IH"(3) [OF Inr Some "11.prems"(1) vs] 1 Inr Some show ?thesis by simp
    qed
  qed
qed simp_all

lemma to_json_error:
  "to_json h stack v = Inl e \<Longrightarrow> e = TypeError"
  "to_json_props h stack ps = Inl e \<Longrightarrow> e = TypeError"
  "to_json_elems h stack vs = Inl e \<Longrightarrow> e = TypeError"
  by (induction h stack v and h stack ps and h stack vs arbitrary: e and e and e
      rule: to_json_to_json_props_to_json_elems.induct)
     (auto split: if_splits sum.splits obj.splits option.splits)

text \<open>
  \<^verbatim>\<open>JSON.stringify\<close> returns when no object reachable from the roots reaches itself.
  The objects on the stack are the ones that contain the value being written, so each
  of them reaches every reference of that value.
\<close>

lemma to_json_acyclic:
  assumes acyc: "\<forall>a\<in>reach h roots. a < length h \<longrightarrow> a \<notin> reach h (set (obj_refs (h ! a)))"
  shows "(\<forall>c\<in>set (val_refs v). c \<in> reach h roots
            \<and> (\<forall>b\<in>set stack. b < length h \<and> c \<in> reach h (set (obj_refs (h ! b))))) \<Longrightarrow>
           \<exists>r. to_json h stack v = Inr r"
    and "(\<forall>c\<in>set (obj_refs (Obj ps)). c \<in> reach h roots
            \<and> (\<forall>b\<in>set stack. b < length h \<and> c \<in> reach h (set (obj_refs (h ! b))))) \<Longrightarrow>
           \<exists>r. to_json_props h stack ps = Inr r"
    and "(\<forall>c\<in>set (obj_refs (Arr vs)). c \<in> reach h roots
            \<and> (\<forall>b\<in>set stack. b < length h \<and> c \<in> reach h (set (obj_refs (h ! b))))) \<Longrightarrow>
           \<exists>r. to_json_elems h stack vs = Inr r"
  using acyc
proof (induction h stack v and h stack ps and h stack vs
    rule: to_json_to_json_props_to_json_elems.induct)
  case (7 h stack a)
  from "7.prems"(1) have ar: "a \<in> reach h roots"
    and anc: "\<forall>b\<in>set stack. b < length h \<and> a \<in> reach h (set (obj_refs (h ! b)))"
    by simp_all
  have fresh: "a \<notin> set stack"
  proof
    assume "a \<in> set stack"
    with anc have "a < length h" "a \<in> reach h (set (obj_refs (h ! a)))" by auto
    with "7.prems"(2) ar show False by blast
  qed
  show ?case
  proof (cases "a < length h")
    case False
    with fresh show ?thesis by simp
  next
    case True
    have kids: "\<forall>c\<in>set (obj_refs (h ! a)). c \<in> reach h roots
        \<and> (\<forall>b\<in>set (a # stack). b < length h \<and> c \<in> reach h (set (obj_refs (h ! b))))"
    proof (intro ballI conjI)
      fix c assume c: "c \<in> set (obj_refs (h ! a))"
      show "c \<in> reach h roots"
        using ar True c by (rule reach.step)
      fix b assume b: "b \<in> set (a # stack)"
      show "b < length h"
        using b True anc by auto
      show "c \<in> reach h (set (obj_refs (h ! b)))"
      proof (cases "b = a")
        case True
        with c show ?thesis by (auto intro: reach.root)
      next
        case False
        with b anc have "a \<in> reach h (set (obj_refs (h ! b)))" by auto
        then show ?thesis using \<open>a < length h\<close> c by (rule reach.step)
      qed
    qed
    show ?thesis
    proof (cases "h ! a")
      case (Obj ps)
      from "7.IH"(1) [OF fresh True Obj] kids Obj "7.prems"(2)
      obtain r where "to_json_props h (a # stack) ps = Inr r" by auto
      with fresh True Obj show ?thesis by simp
    next
      case (Arr vs)
      from "7.IH"(2) [OF fresh True Arr] kids Arr "7.prems"(2)
      obtain r where "to_json_elems h (a # stack) vs = Inr r" by auto
      with fresh True Arr show ?thesis by simp
    qed
  qed
next
  case (9 h stack k v ps)
  from "9.prems"(1) have v: "\<forall>c\<in>set (val_refs v). c \<in> reach h roots
        \<and> (\<forall>b\<in>set stack. b < length h \<and> c \<in> reach h (set (obj_refs (h ! b))))"
    and ps: "\<forall>c\<in>set (obj_refs (Obj ps)). c \<in> reach h roots
        \<and> (\<forall>b\<in>set stack. b < length h \<and> c \<in> reach h (set (obj_refs (h ! b))))"
    by auto
  from "9.IH"(1) [OF v "9.prems"(2)] obtain r where r: "to_json h stack v = Inr r" by blast
  show ?case
  proof (cases r)
    case None
    from "9.IH"(2) [OF r None ps "9.prems"(2)] r None show ?thesis by auto
  next
    case (Some j)
    from "9.IH"(3) [OF r Some ps "9.prems"(2)] r Some show ?thesis by auto
  qed
next
  case (11 h stack v vs)
  from "11.prems"(1) have v: "\<forall>c\<in>set (val_refs v). c \<in> reach h roots
        \<and> (\<forall>b\<in>set stack. b < length h \<and> c \<in> reach h (set (obj_refs (h ! b))))"
    and vs: "\<forall>c\<in>set (obj_refs (Arr vs)). c \<in> reach h roots
        \<and> (\<forall>b\<in>set stack. b < length h \<and> c \<in> reach h (set (obj_refs (h ! b))))"
    by auto
  from "11.IH"(1) [OF v "11.prems"(2)] obtain r where r: "to_json h stack v = Inr r" by blast
  show ?case
  proof (cases r)
    case None
    from "11.IH"(2) [OF r None vs "11.prems"(2)] r None show ?thesis by auto
  next
    case (Some j)
    from "11.IH"(3) [OF r Some vs "11.prems"(2)] r Some show ?thesis by auto
  qed
qed simp_all

text \<open>
  And only then. When \<^verbatim>\<open>JSON.stringify\<close> returns for an object, it has returned for
  every object reachable from it, with that object on the stack.
\<close>

lemma to_json_props_member:
  "to_json_props h stack ps = Inr ms \<Longrightarrow> c \<in> set (obj_refs (Obj ps)) \<Longrightarrow>
     \<exists>r. to_json h stack (Ref c) = Inr r"
proof (induction ps arbitrary: ms)
  case Nil
  then show ?case by simp
next
  case (Cons p ps)
  obtain k v where p: "p = (k, v)" by (cases p)
  from Cons.prems(1) obtain r where r: "to_json h stack v = Inr r"
    unfolding p by (cases "to_json h stack v") auto
  from Cons.prems(1) r obtain ms' where ms': "to_json_props h stack ps = Inr ms'"
    unfolding p by (cases r; cases "to_json_props h stack ps") auto
  from Cons.prems(2) have "c \<in> set (val_refs v) \<or> c \<in> set (obj_refs (Obj ps))"
    by (simp add: p)
  then show ?case
  proof
    assume "c \<in> set (val_refs v)"
    then have "v = Ref c" by (cases v) auto
    with r show ?thesis by auto
  next
    assume "c \<in> set (obj_refs (Obj ps))"
    with Cons.IH [OF ms'] show ?thesis .
  qed
qed

lemma to_json_elems_member:
  "to_json_elems h stack vs = Inr js \<Longrightarrow> c \<in> set (obj_refs (Arr vs)) \<Longrightarrow>
     \<exists>r. to_json h stack (Ref c) = Inr r"
proof (induction vs arbitrary: js)
  case Nil
  then show ?case by simp
next
  case (Cons v vs)
  from Cons.prems(1) obtain r where r: "to_json h stack v = Inr r"
    by (cases "to_json h stack v") auto
  from Cons.prems(1) r obtain js' where js': "to_json_elems h stack vs = Inr js'"
    by (cases r; cases "to_json_elems h stack vs") auto
  from Cons.prems(2) have "c \<in> set (val_refs v) \<or> c \<in> set (obj_refs (Arr vs))"
    by simp
  then show ?case
  proof
    assume "c \<in> set (val_refs v)"
    then have "v = Ref c" by (cases v) auto
    with r show ?thesis by auto
  next
    assume "c \<in> set (obj_refs (Arr vs))"
    with Cons.IH [OF js'] show ?thesis .
  qed
qed

lemma to_json_child:
  assumes "to_json h stack (Ref a) = Inr r" and "a < length h" and "c \<in> set (obj_refs (h ! a))"
  shows "\<exists>r'. to_json h (a # stack) (Ref c) = Inr r'"
proof -
  from assms(1) have fresh: "a \<notin> set stack"
    by (auto split: if_splits)
  show ?thesis
  proof (cases "h ! a")
    case (Obj ps)
    with assms(1,2) fresh obtain ms where "to_json_props h (a # stack) ps = Inr ms"
      by (cases "to_json_props h (a # stack) ps") auto
    from to_json_props_member [OF this] assms(3) Obj show ?thesis by simp
  next
    case (Arr vs)
    with assms(1,2) fresh obtain js where "to_json_elems h (a # stack) vs = Inr js"
      by (cases "to_json_elems h (a # stack) vs") auto
    from to_json_elems_member [OF this] assms(3) Arr show ?thesis by simp
  qed
qed

lemma to_json_reach:
  assumes "\<forall>c\<in>roots. \<exists>r. to_json h stack (Ref c) = Inr r" and "b \<in> reach h roots"
  shows "\<exists>stack' r. to_json h stack' (Ref b) = Inr r \<and> set stack \<subseteq> set stack'"
  using assms(2)
proof (induction rule: reach.induct)
  case (root a)
  with assms(1) show ?case by blast
next
  case (step a b)
  then obtain stack' r where a: "to_json h stack' (Ref a) = Inr r" "set stack \<subseteq> set stack'"
    by blast
  from to_json_child [OF a(1) step.hyps(2,3)] obtain r'
    where "to_json h (a # stack') (Ref b) = Inr r'" by blast
  with a(2) show ?case by (intro exI [of _ "a # stack'"]) auto
qed

lemma to_json_no_cycle:
  assumes "to_json h stack (Ref a) = Inr r" and "a < length h"
  shows "a \<notin> reach h (set (obj_refs (h ! a)))"
proof
  assume cyc: "a \<in> reach h (set (obj_refs (h ! a)))"
  have "\<forall>c\<in>set (obj_refs (h ! a)). \<exists>r. to_json h (a # stack) (Ref c) = Inr r"
    using to_json_child [OF assms] by blast
  from to_json_reach [OF this cyc] obtain stack' r'
    where "to_json h stack' (Ref a) = Inr r'" "a \<in> set stack'"
    by auto
  then show False by simp
qed

text \<open>A heap in which every reference leads to a lower address has no cycle.\<close>

lemma reach_downward:
  assumes "\<forall>a<length h. \<forall>b\<in>set (obj_refs (h ! a)). b < a" and "\<forall>c\<in>roots. c < n"
  shows "\<forall>c\<in>reach h roots. c < n"
proof
  fix c assume "c \<in> reach h roots"
  then show "c < n"
  proof (induction rule: reach.induct)
    case (root a)
    with assms(2) show ?case by simp
  next
    case (step a b)
    with assms(1) have "b < a" by simp
    with step show ?case by simp
  qed
qed

lemma downward_acyclic:
  assumes "\<forall>a<length h. \<forall>b\<in>set (obj_refs (h ! a)). b < a"
  shows "\<forall>a\<in>reach h roots. a < length h \<longrightarrow> a \<notin> reach h (set (obj_refs (h ! a)))"
proof (intro ballI impI)
  fix a assume "a < length h"
  with assms have "\<forall>c\<in>set (obj_refs (h ! a)). c < a" by simp
  from reach_downward [OF assms this] show "a \<notin> reach h (set (obj_refs (h ! a)))"
    by auto
qed

subsection \<open>getState\<close>

text \<open>The only error of \<open>getState\<close> is the \<open>TypeError\<close> of a cyclic structure.\<close>

lemma getState_error: "getState h s = Inl e \<Longrightarrow> e = TypeError"
  by (auto simp: getState_def split: sum.splits dest: to_json_error(2))

lemma closed_heap_parts:
  "closed_heap h st \<Longrightarrow> closed_cells h \<and> list_all (\<lambda>a. a < length h) (obj_refs (Obj st))"
  by (simp add: closed_heap_def closed_cells_def)

lemma update_new_cell:
  "length h \<le> b \<Longrightarrow> \<exists>changed. (h @ new)[b := ob] = h @ changed"
  by (simp add: list_update_append)

lemma getState_append:
  assumes "closed_heap h (state s)"
  shows "getState (h @ changed) s =
     (case to_json_props h [] (state s) of
        Inl e \<Rightarrow> Inl e
      | Inr ms \<Rightarrow> Inr (from_json (JObject ms) (h @ changed)))"
proof -
  from closed_heap_parts [OF assms]
  have "to_json_props (h @ changed) [] (state s) = to_json_props h [] (state s)"
    by (intro to_json_agree(2)) simp_all
  then show ?thesis
    unfolding getState_def by (rule arg_cong [where f = "\<lambda>x. case x of Inl e \<Rightarrow> Inl e | Inr ms \<Rightarrow> Inr (from_json (JObject ms) (h @ changed))"])
qed

lemma getState_cyclic:
  assumes "a \<in> reach h (set (obj_refs (Obj (state s))))" and "a < length h"
    and "a \<in> reach h (set (obj_refs (h ! a)))"
  shows "getState h s = Inl TypeError"
proof (cases "to_json_props h [] (state s)")
  case (Inl e)
  with to_json_error(2) [OF Inl] show ?thesis
    by (simp add: getState_def)
next
  case (Inr ms)
  then have "\<forall>c\<in>set (obj_refs (Obj (state s))). \<exists>r. to_json h [] (Ref c) = Inr r"
    using to_json_props_member by blast
  from to_json_reach [OF this assms(1)] obtain stack' r
    where "to_json h stack' (Ref a) = Inr r" by blast
  from to_json_no_cycle [OF this assms(2)] assms(3) show ?thesis by simp
qed

text \<open>
  C2, as the code has it. In a closed heap where no object reachable from the state
  reaches itself, \<open>getState\<close> returns a reference to a new object. Read as JSON the
  copy is the state read as JSON. No object that existed before is changed, and every
  object reachable from the copy is a new one. Assigning anything to any object
  reachable from the copy changes no object that existed before, and the next
  \<open>getState\<close> parses the same JSON again; so does \<open>getState\<close> after any change at
  all to the objects added since. When an object reachable from the state reaches
  itself, \<open>getState\<close> raises \<open>TypeError\<close>.
\<close>

theorem getState_independent_copy:
  "(closed_heap h (state s)
      \<and> (\<forall>a\<in>reach h (set (obj_refs (Obj (state s)))).
            a < length h \<longrightarrow> a \<notin> reach h (set (obj_refs (h ! a))))
     \<longrightarrow> (\<exists>h' a ms.
            getState h s = Inr (h', Ref a)
          \<and> to_json_props h [] (state s) = Inr ms
          \<and> to_json h' [] (Ref a) = Inr (Some (JObject ms))
          \<and> take (length h) h' = h
          \<and> reach h' {a} \<subseteq> {length h..<length h'}
          \<and> (\<forall>b\<in>reach h' {a}. \<forall>ob.
                take (length h) (h'[b := ob]) = h
                \<and> getState (h'[b := ob]) s = Inr (from_json (JObject ms) (h'[b := ob])))
          \<and> (\<forall>changed. getState (h @ changed) s = Inr (from_json (JObject ms) (h @ changed)))))
   \<and> ((\<exists>a\<in>reach h (set (obj_refs (Obj (state s)))).
          a < length h \<and> a \<in> reach h (set (obj_refs (h ! a))))
     \<longrightarrow> getState h s = Inl TypeError)"
proof (intro conjI impI)
  assume "\<exists>a\<in>reach h (set (obj_refs (Obj (state s)))).
          a < length h \<and> a \<in> reach h (set (obj_refs (h ! a)))"
  then show "getState h s = Inl TypeError"
    using getState_cyclic by blast
next
  assume "closed_heap h (state s)
      \<and> (\<forall>a\<in>reach h (set (obj_refs (Obj (state s)))).
            a < length h \<longrightarrow> a \<notin> reach h (set (obj_refs (h ! a))))"
  then have closed: "closed_heap h (state s)"
    and acyclic: "\<forall>a\<in>reach h (set (obj_refs (Obj (state s)))).
        a < length h \<longrightarrow> a \<notin> reach h (set (obj_refs (h ! a)))"
    by simp_all
  have "\<forall>c\<in>set (obj_refs (Obj (state s))). c \<in> reach h (set (obj_refs (Obj (state s))))
      \<and> (\<forall>b\<in>set []. b < length h \<and> c \<in> reach h (set (obj_refs (h ! b))))"
    by (auto intro: reach.root)
  from to_json_acyclic(2) [OF acyclic this]
  obtain ms where ms: "to_json_props h [] (state s) = Inr ms"
    by auto
  obtain h' v where fj: "from_json (JObject ms) h = (h', v)"
    by (cases "from_json (JObject ms) h")
  then obtain a where v: "v = Ref a"
    by (auto split: prod.splits)
  have gs: "getState h s = Inr (h', Ref a)"
    using fj by (simp add: getState_def ms v)
  from from_json_region(1) [OF fj] have reg: "region h h'"
    and av: "length h \<le> a" "a < length h'"
    by (simp_all add: v refs_in_def)
  from reg obtain new where new: "h' = h @ new"
    by (auto simp: region_def)
  have rb: "to_json h' [] (Ref a) = Inr (Some (JObject ms))"
    using read_back(1) [OF fj, of "[]" "[]"] by (simp add: v)
  have reach: "reach h' {a} \<subseteq> {length h..<length h'}"
    using reg av by (intro reach_region) auto
  have later: "getState (h @ changed) s = Inr (from_json (JObject ms) (h @ changed))" for changed
    by (simp add: getState_append [OF closed] ms)
  have wr: "take (length h) (h'[b := ob]) = h
      \<and> getState (h'[b := ob]) s = Inr (from_json (JObject ms) (h'[b := ob]))"
    if "b \<in> reach h' {a}" for b ob
  proof -
    from that reach have "length h \<le> b" by auto
    from update_new_cell [OF this, of new ob] obtain changed
      where c: "h'[b := ob] = h @ changed"
      unfolding new by blast
    have "take (length h) (h @ changed) = h"
      by simp
    with later [of changed] show ?thesis
      unfolding c by blast
  qed
  show "\<exists>h' a ms.
            getState h s = Inr (h', Ref a)
          \<and> to_json_props h [] (state s) = Inr ms
          \<and> to_json h' [] (Ref a) = Inr (Some (JObject ms))
          \<and> take (length h) h' = h
          \<and> reach h' {a} \<subseteq> {length h..<length h'}
          \<and> (\<forall>b\<in>reach h' {a}. \<forall>ob.
                take (length h) (h'[b := ob]) = h
                \<and> getState (h'[b := ob]) s = Inr (from_json (JObject ms) (h'[b := ob])))
          \<and> (\<forall>changed. getState (h @ changed) s = Inr (from_json (JObject ms) (h @ changed)))"
  proof (intro exI conjI ballI allI)
    show "getState h s = Inr (h', Ref a)" by (rule gs)
    show "to_json_props h [] (state s) = Inr ms" by (rule ms)
    show "to_json h' [] (Ref a) = Inr (Some (JObject ms))" by (rule rb)
    show "take (length h) h' = h" by (simp add: new)
    show "reach h' {a} \<subseteq> {length h..<length h'}" by (rule reach)
    show "take (length h) (h'[b := ob]) = h" if "b \<in> reach h' {a}" for b ob
      using wr [OF that] by blast
    show "getState (h'[b := ob]) s = Inr (from_json (JObject ms) (h'[b := ob]))"
      if "b \<in> reach h' {a}" for b ob
      using wr [OF that] by blast
    show "getState (h @ changed) s = Inr (from_json (JObject ms) (h @ changed))" for changed
      by (rule later)
  qed
qed

theorem getState_independent_copy_witness:
  "closed_heap [Arr [Num 1, Num 2], Obj [(''theme'', Str ''dark''), (''list'', Ref 0)]]
     [(''settings'', Ref 1), (''u'', Undefined)]
   \<and> getState [Arr [Num 1, Num 2], Obj [(''theme'', Str ''dark''), (''list'', Ref 0)]]
       \<lparr>state = [(''settings'', Ref 1), (''u'', Undefined)], listeners = Map.empty, middlewares = []\<rparr>
     = Inr ([Arr [Num 1, Num 2], Obj [(''theme'', Str ''dark''), (''list'', Ref 0)],
             Arr [Num 1, Num 2], Obj [(''theme'', Str ''dark''), (''list'', Ref 2)],
             Obj [(''settings'', Ref 3)]], Ref 4)
   \<and> getState [Arr [Num 1, Num 2], Obj [(''theme'', Str ''dark''), (''list'', Ref 0)],
             Arr [Num 1, Num 9], Obj [(''theme'', Str ''dark''), (''list'', Ref 2)],
             Obj [(''settings'', Ref 3)]]
       \<lparr>state = [(''settings'', Ref 1), (''u'', Undefined)], listeners = Map.empty, middlewares = []\<rparr>
     = Inr (from_json (JObject [(''settings'',
              JObject [(''theme'', JString ''dark''), (''list'', JArray [JNumber 1, JNumber 2])])])
            [Arr [Num 1, Num 2], Obj [(''theme'', Str ''dark''), (''list'', Ref 0)],
             Arr [Num 1, Num 9], Obj [(''theme'', Str ''dark''), (''list'', Ref 2)],
             Obj [(''settings'', Ref 3)]])"
proof -
  define h where "h = [Arr [Num 1, Num 2], Obj [(''theme'', Str ''dark''), (''list'', Ref 0)]]"
  define s where "s = \<lparr>state = [(''settings'', Ref 1), (''u'', Undefined)],
      listeners = (Map.empty :: string \<rightharpoonup> callback list), middlewares = []\<rparr>"
  have closed: "closed_heap h (state s)"
    by (simp add: closed_heap_def h_def s_def)
  have down: "\<forall>a<length h. \<forall>b\<in>set (obj_refs (h ! a)). b < a"
  proof (intro allI impI)
    fix a assume "a < length h"
    then have "a = 0 \<or> a = 1" by (auto simp: h_def)
    then show "\<forall>b\<in>set (obj_refs (h ! a)). b < a" by (auto simp: h_def)
  qed
  have acyclic: "\<forall>a\<in>reach h (set (obj_refs (Obj (state s)))).
        a < length h \<longrightarrow> a \<notin> reach h (set (obj_refs (h ! a)))"
    using down by (rule downward_acyclic)
  from getState_independent_copy [of h s] closed acyclic obtain h' a ms
    where gs: "getState h s = Inr (h', Ref a)"
      and ms: "to_json_props h [] (state s) = Inr ms"
      and later: "\<forall>changed. getState (h @ changed) s = Inr (from_json (JObject ms) (h @ changed))"
    by blast
  have eval: "getState h s = Inr ([Arr [Num 1, Num 2], Obj [(''theme'', Str ''dark''), (''list'', Ref 0)],
             Arr [Num 1, Num 2], Obj [(''theme'', Str ''dark''), (''list'', Ref 2)],
             Obj [(''settings'', Ref 3)]], Ref 4)"
    by (simp add: getState_def h_def s_def)
  have ms': "ms = [(''settings'',
              JObject [(''theme'', JString ''dark''), (''list'', JArray [JNumber 1, JNumber 2])])]"
    using ms by (simp add: h_def s_def)
  from later [rule_format, of "[Arr [Num 1, Num 9], Obj [(''theme'', Str ''dark''), (''list'', Ref 2)],
             Obj [(''settings'', Ref 3)]]"]
  show ?thesis
    using closed eval unfolding ms' by (simp add: h_def s_def)
qed

text \<open>
  C2 as stated fails for a state that is not JSON data. After
  \<^verbatim>\<open>setState('a', o)\<close> with \<^verbatim>\<open>o.self === o\<close>, \<open>getState\<close> returns nothing: it
  raises the \<open>TypeError\<close> of a cyclic structure. After \<^verbatim>\<open>setState('n', NaN)\<close> the
  object it returns holds \<open>null\<close> where the state holds \<open>NaN\<close>.
\<close>

theorem getState_counterexample:
  "getState [Obj [(''self'', Ref 0)]] (fst (setState (\<lambda>e. False) ''a'' (Ref 0) (new_Store [])))
     = Inl TypeError
   \<and> getState [] (fst (setState (\<lambda>e. False) ''n'' NonFinite (new_Store [])))
     = Inr ([Obj [(''n'', Null)]], Ref 0)"
  by (simp add: getState_def setState_def new_Store_def Let_def)

end
